theory Spec2Isabelle
  imports Main "HOL-Library.Word"
begin

unbundle bit_operations_syntax

section \<open>Constants, errors and integer conversions\<close>

text \<open>
  The package \<^verbatim>\<open>appconsts\<close> is not among the sources: the functions below only name its
  constants. They are taken as parameters, collected in one record that every function
  receives as its first argument. The namespace ids are byte strings.
\<close>

type_synonym bytes = "8 word list"

record appconsts =
  ShareSize :: nat
  NamespaceSize :: nat
  DefaultMinSquareSize :: nat
  DefaultMaxSquareSize :: nat
  FirstCompactShareContentSize :: nat
  ContinuationCompactShareContentSize :: nat
  FirstSparseShareContentSize :: nat
  ContinuationSparseShareContentSize :: nat
  TxNamespaceID :: bytes
  TailPaddingNamespaceID :: bytes
  ReservedPaddingNamespaceID :: bytes

text \<open>The error kinds of the core; a Go \<^verbatim>\<open>panic(err)\<close> is the value \<open>Inl err\<close>.\<close>

datatype error =
  InvalidShareVersion
  | OversizedContent
  | EmptySequence
  | MissingSequenceStart
  | SequenceLenMismatch
  | MarshalFailure

text \<open>
  Go's \<^verbatim>\<open>int\<close> holds lengths of slices and sums of such lengths here; it is modelled by
  \<open>int\<close>. The conversions \<^verbatim>\<open>uint64(x)\<close> and \<^verbatim>\<open>uint32(x)\<close> of an \<^verbatim>\<open>int\<close> keep the low
  64 or 32 bits, read as an unsigned value.
\<close>

definition uint64_of_int :: "int \<Rightarrow> nat" where
  "uint64_of_int x = nat (x mod 2 ^ 64)"

definition uint32_of_int :: "int \<Rightarrow> nat" where
  "uint32_of_int x = nat (x mod 2 ^ 32)"

text \<open>Go's integer division truncates towards zero.\<close>

definition go_quot :: "int \<Rightarrow> int \<Rightarrow> int" where
  "go_quot a b = (if (a < 0) = (b < 0) then \<bar>a\<bar> div \<bar>b\<bar> else - (\<bar>a\<bar> div \<bar>b\<bar>))"

section \<open>Helpers of package shares used by the estimator\<close>

text \<open>
  Modelled from the spec: \<^verbatim>\<open>binary.PutUvarint\<close> and \<^verbatim>\<open>shares.DelimLen\<close> are not among the
  sources. The delimiter of an item is the minimal-length varint of its length (section
  4.2): seven bits per byte, least significant group first, the top bit set on every byte
  but the last. \<open>DelimLen\<close> is the number of bytes of that encoding.
\<close>

fun PutUvarint :: "nat \<Rightarrow> bytes" where
  "PutUvarint x =
     (if x < 128 then [of_nat x] else of_nat (128 + x mod 128) # PutUvarint (x div 128))"

declare PutUvarint.simps [simp del]

definition DelimLen :: "nat \<Rightarrow> int" where
  "DelimLen x = int (length (PutUvarint x))"

text \<open>
  Modelled from the spec: \<^verbatim>\<open>shares.CompactSharesNeeded\<close> and \<^verbatim>\<open>shares.SparseSharesNeeded\<close>
  are not among the sources. The count follows the capacity arithmetic of the splitters
  (sections 4.2 to 4.4): nothing for an empty sequence, one share for up to the first-share
  capacity, and one continuation share for every further continuation capacity, the last
  one possibly partly filled.
\<close>

definition sharesNeeded :: "nat \<Rightarrow> nat \<Rightarrow> nat \<Rightarrow> nat" where
  "sharesNeeded firstCap contCap sequenceLen =
     (if sequenceLen = 0 then 0
      else if sequenceLen \<le> firstCap then 1
      else 1 + (sequenceLen - firstCap + contCap - 1) div contCap)"

definition CompactSharesNeeded :: "appconsts \<Rightarrow> nat \<Rightarrow> nat" where
  "CompactSharesNeeded c sequenceLen =
     sharesNeeded (FirstCompactShareContentSize c) (ContinuationCompactShareContentSize c) sequenceLen"

definition SparseSharesNeeded :: "appconsts \<Rightarrow> nat \<Rightarrow> nat" where
  "SparseSharesNeeded c sequenceLen =
     sharesNeeded (FirstSparseShareContentSize c) (ContinuationSparseShareContentSize c) sequenceLen"

text \<open>
  Modelled from the spec: \<^verbatim>\<open>shares.RoundUpPowerOfTwo\<close> is not among the sources. Section 4.6,
  step 5: round up to the next power of two. The result is found by doubling from 1.
\<close>

function roundUpLoop :: "nat \<Rightarrow> nat \<Rightarrow> nat" where
  "roundUpLoop result input =
     (if result < input \<and> 0 < result then roundUpLoop (2 * result) input else result)"
  by pat_completeness auto
termination
  by (relation "measure (\<lambda>(result, input). input - result)") auto

declare roundUpLoop.simps [simp del]

definition RoundUpPowerOfTwo :: "nat \<Rightarrow> nat" where
  "RoundUpPowerOfTwo input = roundUpLoop 1 input"

text \<open>An executable test for powers of two, used to constrain the square size constants.\<close>

function isPowerOfTwo :: "nat \<Rightarrow> bool" where
  "isPowerOfTwo n = (if n \<le> 1 then n = 1 else even n \<and> isPowerOfTwo (n div 2))"
  by pat_completeness auto
termination
  by (relation "measure (\<lambda>n. n)") auto

declare isPowerOfTwo.simps [simp del]

section \<open>The wrapped-transaction overhead and the square size estimator\<close>

text \<open>
  From \<^verbatim>\<open>app/estimate_square_size.go\<close>. The struct \<^verbatim>\<open>parsedTx\<close> is declared elsewhere; the
  estimator reads its fields \<^verbatim>\<open>normalTx\<close> and \<^verbatim>\<open>blobTx\<close>, and of the latter the field \<^verbatim>\<open>Tx\<close>
  and the result of the method \<^verbatim>\<open>DataUsed()\<close>, which is kept as a field.
\<close>

record blobTx =
  Tx :: bytes
  DataUsed :: int

record parsedTx =
  normalTx :: bytes
  blobTx :: blobTx

text \<open>
  \<^verbatim>\<open>coretypes.MarshalIndexWrapper\<close> belongs to an external library. The estimator takes it as
  a parameter: a function from the share index (a \<^verbatim>\<open>uint32\<close>) and the transaction bytes to
  the wrapped bytes, or an error.
\<close>

type_synonym marshal = "32 word \<Rightarrow> bytes \<Rightarrow> error + bytes"

text \<open>
  \<^verbatim>\<open>maxWrappedTxOverhead\<close>: the products are computed on \<^verbatim>\<open>uint64\<close> and wrap; the index is
  cut to 32 bits; \<^verbatim>\<open>int(maxTxLen)\<close> reads the 64 bits as a signed value.
\<close>

definition maxWrappedTxOverhead :: "appconsts \<Rightarrow> marshal \<Rightarrow> 64 word \<Rightarrow> error + int" where
  "maxWrappedTxOverhead c m squareSize =
     (let maxTxLen = squareSize * squareSize * of_nat (ContinuationCompactShareContentSize c)
      in case m (ucast (squareSize * squareSize)) (replicate (unat maxTxLen) 0) of
           Inl err \<Rightarrow> Inl err
         | Inr wtx \<Rightarrow> Inr (int (length wtx) - sint maxTxLen))"

text \<open>The loop of \<^verbatim>\<open>estimateCompactShares\<close>, with the running total \<^verbatim>\<open>txbytes\<close> as accumulator.\<close>

fun txbytesLoop :: "int \<Rightarrow> int \<Rightarrow> parsedTx list \<Rightarrow> int" where
  "txbytesLoop maxWTxOverhead txbytes [] = txbytes"
| "txbytesLoop maxWTxOverhead txbytes (pTx # ptxs) =
     (if length (normalTx pTx) \<noteq> 0 then
        (let txLen = int (length (normalTx pTx));
             txLen = txLen + DelimLen (uint64_of_int txLen)
         in txbytesLoop maxWTxOverhead (txbytes + txLen) ptxs)
      else
        (let txLen = int (length (Tx (blobTx pTx))) + maxWTxOverhead;
             txLen = txLen + DelimLen (uint64_of_int txLen)
         in txbytesLoop maxWTxOverhead (txbytes + txLen) ptxs))"

definition sharesOfTxbytes :: "appconsts \<Rightarrow> int \<Rightarrow> int" where
  "sharesOfTxbytes c txbytes =
     (let sharesUsed = 1
      in if txbytes \<le> int (FirstCompactShareContentSize c) then sharesUsed
         else
           (let txbytes = txbytes - int (FirstCompactShareContentSize c)
            in sharesUsed
               + (go_quot txbytes (int (ContinuationCompactShareContentSize c)) + 1)))"

definition estimateCompactShares ::
  "appconsts \<Rightarrow> marshal \<Rightarrow> 64 word \<Rightarrow> parsedTx list \<Rightarrow> error + int" where
  "estimateCompactShares c m squareSize ptxs =
     (case maxWrappedTxOverhead c m squareSize of
        Inl err \<Rightarrow> Inl err
      | Inr maxWTxOverhead \<Rightarrow> Inr (sharesOfTxbytes c (txbytesLoop maxWTxOverhead 0 ptxs)))"

text \<open>The loop of \<^verbatim>\<open>estimateSquareSize\<close> over the blob transactions.\<close>

fun blobSharesLoop :: "appconsts \<Rightarrow> int \<Rightarrow> parsedTx list \<Rightarrow> int" where
  "blobSharesLoop c blobSharesUsed [] = blobSharesUsed"
| "blobSharesLoop c blobSharesUsed (ptx # txs) =
     (if length (normalTx ptx) \<noteq> 0 then blobSharesLoop c blobSharesUsed txs
      else blobSharesLoop c
             (blobSharesUsed
              + int (SparseSharesNeeded c (uint32_of_int (DataUsed (blobTx ptx))))) txs)"

text \<open>
  \<^verbatim>\<open>estimateSquareSize\<close>. The floating-point step
  \<^verbatim>\<open>uint64(math.Ceil(math.Sqrt(float64(total) * 1.35)))\<close> is a function of the integer total
  alone; it is the parameter \<open>minSizeOf\<close>. The conversion to \<^verbatim>\<open>float64\<close> is monotone and
  exact on 0, 1 and 2, so the test \<^verbatim>\<open>totalSharesUsed <= 1\<close> is the same test on the integer.
  The square size is a \<^verbatim>\<open>uint64\<close> that is only compared and assigned: it is modelled by its
  value.
\<close>

definition estimateSquareSize ::
  "appconsts \<Rightarrow> marshal \<Rightarrow> (int \<Rightarrow> nat) \<Rightarrow> parsedTx list \<Rightarrow> error + (nat \<times> int)" where
  "estimateSquareSize c m minSizeOf txs =
     (case estimateCompactShares c m (of_nat (DefaultMaxSquareSize c)) txs of
        Inl err \<Rightarrow> Inl err
      | Inr txSharesUsed \<Rightarrow>
          (let blobSharesUsed = blobSharesLoop c 0 txs;
               totalSharesUsed = txSharesUsed + blobSharesUsed
           in if totalSharesUsed \<le> 1 then Inr (DefaultMinSquareSize c, txSharesUsed)
              else
                (let minSize = minSizeOf totalSharesUsed;
                     squareSize = RoundUpPowerOfTwo minSize;
                     squareSize = (if squareSize \<ge> DefaultMaxSquareSize c
                                   then DefaultMaxSquareSize c else squareSize);
                     squareSize = (if squareSize \<le> DefaultMinSquareSize c
                                   then DefaultMinSquareSize c else squareSize)
                 in Inr (squareSize, txSharesUsed))))"

text \<open>
  The byte total of \<^verbatim>\<open>estimateCompactShares\<close> in the words of the specification: an item
  contributes a length plus the delimiter sized on that length. For a plain transaction
  the length is the raw length; for a blob-bearing one it is the transaction length plus
  the overhead.
\<close>

definition delimitedLen :: "int \<Rightarrow> int" where
  "delimitedLen n = n + DelimLen (uint64_of_int n)"

definition txContribution :: "int \<Rightarrow> parsedTx \<Rightarrow> int" where
  "txContribution overhead p =
     (if normalTx p \<noteq> [] then delimitedLen (int (length (normalTx p)))
      else delimitedLen (int (length (Tx (blobTx p))) + overhead))"

text \<open>
  The same computation with the calls of \<^verbatim>\<open>MarshalIndexWrapper\<close> counted: a counter is
  passed through \<^verbatim>\<open>maxWrappedTxOverhead\<close>, the loop and \<^verbatim>\<open>estimateCompactShares\<close> in the
  order of the source, and the one place that calls the serialiser adds 1 to it.
\<close>

definition maxWrappedTxOverheadCounted ::
  "appconsts \<Rightarrow> marshal \<Rightarrow> 64 word \<Rightarrow> nat \<Rightarrow> (error + int) \<times> nat" where
  "maxWrappedTxOverheadCounted c m squareSize calls =
     (let maxTxLen = squareSize * squareSize * of_nat (ContinuationCompactShareContentSize c);
          result = m (ucast (squareSize * squareSize)) (replicate (unat maxTxLen) 0);
          calls = Suc calls
      in case result of
           Inl err \<Rightarrow> (Inl err, calls)
         | Inr wtx \<Rightarrow> (Inr (int (length wtx) - sint maxTxLen), calls))"

fun txbytesLoopCounted :: "int \<Rightarrow> int \<Rightarrow> parsedTx list \<Rightarrow> nat \<Rightarrow> int \<times> nat" where
  "txbytesLoopCounted maxWTxOverhead txbytes [] calls = (txbytes, calls)"
| "txbytesLoopCounted maxWTxOverhead txbytes (pTx # ptxs) calls =
     (if length (normalTx pTx) \<noteq> 0 then
        (let txLen = int (length (normalTx pTx));
             txLen = txLen + DelimLen (uint64_of_int txLen)
         in txbytesLoopCounted maxWTxOverhead (txbytes + txLen) ptxs calls)
      else
        (let txLen = int (length (Tx (blobTx pTx))) + maxWTxOverhead;
             txLen = txLen + DelimLen (uint64_of_int txLen)
         in txbytesLoopCounted maxWTxOverhead (txbytes + txLen) ptxs calls))"

definition estimateCompactSharesCounted ::
  "appconsts \<Rightarrow> marshal \<Rightarrow> 64 word \<Rightarrow> parsedTx list \<Rightarrow> nat \<Rightarrow> (error + int) \<times> nat" where
  "estimateCompactSharesCounted c m squareSize ptxs calls =
     (case maxWrappedTxOverheadCounted c m squareSize calls of
        (Inl err, calls) \<Rightarrow> (Inl err, calls)
      | (Inr maxWTxOverhead, calls) \<Rightarrow>
          (case txbytesLoopCounted maxWTxOverhead 0 ptxs calls of
             (txbytes, calls) \<Rightarrow> (Inr (sharesOfTxbytes c txbytes), calls)))"

text \<open>
  Modelled from the spec: \<^verbatim>\<open>coretypes.MarshalIndexWrapper\<close> is an external function that is
  not among the sources. Section 4.5 says that the wrapper carrying the transaction and the
  share index is serialised and that larger indices need wider encodings, without giving
  the format. The model is the protobuf encoding of the wrapper message: field 1 holds the
  transaction bytes behind their varint length, field 2 the share index as a varint,
  field 3 the four-letter type id; a field holding the default value is left out.
\<close>

definition protoBytesField :: "8 word \<Rightarrow> bytes \<Rightarrow> bytes" where
  "protoBytesField tag b = (if b = [] then [] else tag # PutUvarint (length b) @ b)"

definition protoVarintField :: "8 word \<Rightarrow> nat \<Rightarrow> bytes" where
  "protoVarintField tag v = (if v = 0 then [] else tag # PutUvarint v)"

definition MarshalIndexWrapper :: marshal where
  "MarshalIndexWrapper shareIndex tx =
     Inr (protoBytesField 10 tx @ protoVarintField 16 (unat shareIndex)
          @ protoBytesField 26 [73, 78, 68, 88])"

text \<open>
  The value of \<^verbatim>\<open>ceil(sqrt(total * 1.35))\<close> in exact arithmetic: the least \<open>k\<close> with
  \<open>27 * total \<le> 20 * k * k\<close>, found by counting up. It serves as a sample for the
  parameter \<open>minSizeOf\<close>.
\<close>

function ceilSqrtLoop :: "nat \<Rightarrow> int \<Rightarrow> nat" where
  "ceilSqrtLoop k t = (if 20 * int (k * k) < 27 * t then ceilSqrtLoop (Suc k) t else k)"
  by pat_completeness auto
termination
proof (relation "measure (\<lambda>(k, t). nat (27 * t) - k)")
  show "wf (measure (\<lambda>(k, t). nat (27 * t) - k))" by simp
next
  fix k :: nat and t :: int
  assume a: "20 * int (k * k) < 27 * t"
  have "int k \<le> int (k * k)" by (cases k) simp_all
  with a have "int k < 27 * t" by linarith
  then show "((Suc k, t), (k, t)) \<in> measure (\<lambda>(k, t). nat (27 * t) - k)" by simp
qed

declare ceilSqrtLoop.simps [simp del]

definition exactMinSize :: "int \<Rightarrow> nat" where
  "exactMinSize t = ceilSqrtLoop 0 t"

section \<open>Share format\<close>

text \<open>
  Modelled from the spec: the files of package \<^verbatim>\<open>shares\<close> that define the share
  format, the compact share splitter and the share sequence are not among the sources; only
  their tests are. The definitions of this and the next two sections follow sections 3
  and 4.1 to 4.4 of the specification.

  A share is a byte string: the namespace id, the info byte, the four bytes of the
  sequence length when the share starts a sequence, the data, and zero padding up to
  \<^verbatim>\<open>ShareSize\<close>. The info byte is \<^verbatim>\<open>(shareVersion << 1) | isSequenceStart\<close>; only version 0 is
  valid.
\<close>

record ShareSequence =
  NamespaceID :: bytes
  Shares :: "bytes list"

definition ShareVersionZero :: nat where
  "ShareVersionZero = 0"

definition SequenceLenBytes :: nat where
  "SequenceLenBytes = 4"

definition NewInfoByte :: "nat \<Rightarrow> bool \<Rightarrow> error + 8 word" where
  "NewInfoByte version isSequenceStart =
     (if version \<noteq> ShareVersionZero then Inl InvalidShareVersion
      else Inr (push_bit 1 (of_nat version) OR (if isSequenceStart then 1 else 0)))"

definition padShare :: "appconsts \<Rightarrow> bytes \<Rightarrow> error + bytes" where
  "padShare c raw =
     (if ShareSize c < length raw then Inl OversizedContent
      else Inr (raw @ replicate (ShareSize c - length raw) 0))"

text \<open>\<^verbatim>\<open>binary.BigEndian.PutUint32\<close> and its inverse, most significant byte first.\<close>

definition PutUint32 :: "nat \<Rightarrow> bytes" where
  "PutUint32 v = [of_nat (v div 2 ^ 24), of_nat (v div 2 ^ 16), of_nat (v div 2 ^ 8), of_nat v]"

definition Uint32 :: "bytes \<Rightarrow> nat" where
  "Uint32 b = foldl (\<lambda>acc x. 256 * acc + unat x) 0 b"

text \<open>
  \<^verbatim>\<open>shareWithData\<close> is the helper of the test file: namespace, info byte, the sequence length
  when the share starts a sequence, the data, then \<^verbatim>\<open>padShare\<close>.
\<close>

definition shareWithData :: "appconsts \<Rightarrow> bytes \<Rightarrow> bool \<Rightarrow> nat \<Rightarrow> bytes \<Rightarrow> error + bytes" where
  "shareWithData c ns isStart sequenceLen data =
     (case NewInfoByte ShareVersionZero isStart of
        Inl err \<Rightarrow> Inl err
      | Inr infoByte \<Rightarrow>
          padShare c (ns @ [infoByte] @ (if isStart then PutUint32 sequenceLen else []) @ data))"

text \<open>
  Modelled from the spec: reading a share, by the layout of section 3. A share too short
  to hold an info byte has no sequence-start flag. The content bytes of a share are all
  the bytes behind its header.
\<close>

definition infoByteOf :: "appconsts \<Rightarrow> bytes \<Rightarrow> 8 word option" where
  "infoByteOf c share = (case drop (NamespaceSize c) share of [] \<Rightarrow> None | b # _ \<Rightarrow> Some b)"

definition isSequenceStart :: "appconsts \<Rightarrow> bytes \<Rightarrow> bool" where
  "isSequenceStart c share = (case infoByteOf c share of None \<Rightarrow> False | Some b \<Rightarrow> b AND 1 = 1)"

definition shareSequenceLen :: "appconsts \<Rightarrow> bytes \<Rightarrow> nat" where
  "shareSequenceLen c share = Uint32 (take SequenceLenBytes (drop (NamespaceSize c + 1) share))"

definition contentBytes :: "appconsts \<Rightarrow> bytes \<Rightarrow> bytes" where
  "contentBytes c share =
     drop (NamespaceSize c + 1 + (if isSequenceStart c share then SequenceLenBytes else 0)) share"

section \<open>Share sequence reconstructor and validator\<close>

text \<open>
  Modelled from the spec: section 4.4. \<^verbatim>\<open>RawData\<close> fails on no shares and on a first share without the
  sequence-start flag; otherwise it reads the sequence length of the first share,
  concatenates the content bytes of all shares and truncates them to exactly
  \<^verbatim>\<open>SequenceLen\<close> bytes. Shares that together hold fewer content bytes than the first share
  declares cannot be truncated to that length: the declared length does not reconcile
  with the shares, and the result is \<^verbatim>\<open>SequenceLenMismatch\<close>. So a result of \<^verbatim>\<open>RawData\<close>
  never has another length than the declared one.
\<close>

definition RawData :: "appconsts \<Rightarrow> ShareSequence \<Rightarrow> error + bytes" where
  "RawData c s =
     (case Shares s of
        [] \<Rightarrow> Inl EmptySequence
      | first # _ \<Rightarrow>
          if \<not> isSequenceStart c first then Inl MissingSequenceStart
          else
            (let sequenceLen = shareSequenceLen c first;
                 raw = concat (map (contentBytes c) (Shares s))
             in if length raw < sequenceLen then Inl SequenceLenMismatch
                else Inr (take sequenceLen raw)))"

text \<open>
  Modelled from the spec: \<^verbatim>\<open>validSequenceLen\<close>, section 4.4. An empty sequence fails
  (section 8). A sequence under the
  tail-padding or the reserved-padding namespace is padding. So is a namespace-padding
  sequence: a single share that starts a sequence, as the first share of every sequence
  does (section 3), and whose content bytes are all zero (the zero-content filler of
  section 4.1). Padding is valid whatever length it declares. Otherwise the expected share
  count is recomputed from the declared length with the capacities of the splitter of the
  namespace: compact for the transaction namespace, sparse for the others. A first share
  without the flag declares no length: the expected count is then 0 (section 9). The
  sequence fails with \<^verbatim>\<open>SequenceLenMismatch\<close> when the counts differ or the first share lacks
  the flag.
\<close>

definition isPadding :: "appconsts \<Rightarrow> ShareSequence \<Rightarrow> bool" where
  "isPadding c s =
     (NamespaceID s = TailPaddingNamespaceID c
      \<or> NamespaceID s = ReservedPaddingNamespaceID c
      \<or> (case Shares s of
            [share] \<Rightarrow>
              isSequenceStart c share \<and> list_all (\<lambda>b. b = 0) (contentBytes c share)
          | _ \<Rightarrow> False))"

definition numberOfSharesNeeded :: "appconsts \<Rightarrow> ShareSequence \<Rightarrow> bytes \<Rightarrow> nat" where
  "numberOfSharesNeeded c s first =
     (if \<not> isSequenceStart c first then 0
      else if NamespaceID s = TxNamespaceID c
           then CompactSharesNeeded c (shareSequenceLen c first)
           else SparseSharesNeeded c (shareSequenceLen c first))"

definition validSequenceLen :: "appconsts \<Rightarrow> ShareSequence \<Rightarrow> error + unit" where
  "validSequenceLen c s =
     (case Shares s of
        [] \<Rightarrow> Inl EmptySequence
      | first # _ \<Rightarrow>
          if isPadding c s then Inr ()
          else if numberOfSharesNeeded c s first \<noteq> length (Shares s)
                  \<or> \<not> isSequenceStart c first
               then Inl SequenceLenMismatch
               else Inr ())"

section \<open>Compact share splitter\<close>

text \<open>
  Modelled from the spec: section 4.2. The splitter owns the content of the shares it has closed, the bytes of the
  open share, the remaining budget of the open share and the number of bytes written. The
  budget is the first-share capacity at the start and the continuation capacity after every
  close. Closing zero-pads the open share to its capacity.
\<close>

record CompactShareSplitter =
  namespace :: bytes
  shareVersion :: nat
  closedShares :: "bytes list"
  pendingShare :: bytes
  remaining :: nat
  bytesWritten :: nat

definition NewCompactShareSplitter :: "appconsts \<Rightarrow> bytes \<Rightarrow> nat \<Rightarrow> CompactShareSplitter" where
  "NewCompactShareSplitter c ns version =
     \<lparr> namespace = ns, shareVersion = version, closedShares = [], pendingShare = [],
       remaining = FirstCompactShareContentSize c, bytesWritten = 0 \<rparr>"

definition closePending :: "appconsts \<Rightarrow> CompactShareSplitter \<Rightarrow> CompactShareSplitter" where
  "closePending c css =
     css \<lparr> closedShares := closedShares css @ [pendingShare css @ replicate (remaining css) 0],
           pendingShare := [],
           remaining := ContinuationCompactShareContentSize c \<rparr>"

text \<open>
  Modelled from the spec: writing bytes fills the open share and moves on to a new continuation share whenever the
  budget is used up and bytes are left, so that an item is split across a share boundary
  where needed. Bytes that cannot fit even an empty share are \<^verbatim>\<open>OversizedContent\<close>.
\<close>

function writeBytes ::
  "appconsts \<Rightarrow> CompactShareSplitter \<Rightarrow> bytes \<Rightarrow> error + CompactShareSplitter" where
  "writeBytes c css rawData =
     (if rawData = [] then Inr css
      else if remaining css = 0 then
        (if ContinuationCompactShareContentSize c = 0 then Inl OversizedContent
         else writeBytes c (closePending c css) rawData)
      else
        (let n = min (remaining css) (length rawData)
         in writeBytes c
              (css \<lparr> pendingShare := pendingShare css @ take n rawData,
                     remaining := remaining css - n,
                     bytesWritten := bytesWritten css + n \<rparr>)
              (drop n rawData)))"
  by pat_completeness auto
termination
  by (relation "measure (\<lambda>(c, css, rawData).
        2 * length rawData + (if remaining css = 0 then 1 else 0))")
     (auto simp: closePending_def)

declare writeBytes.simps [simp del]

text \<open>
  Modelled from the spec: one write, as section 4.2 gives it. Compute the delimiter; if the remaining budget cannot hold it, close the open
  share and open a continuation share; then write the delimiter and the content.
\<close>

definition WriteTx ::
  "appconsts \<Rightarrow> CompactShareSplitter \<Rightarrow> bytes \<Rightarrow> error + CompactShareSplitter" where
  "WriteTx c css tx =
     (let delim = PutUvarint (length tx);
          css = (if remaining css < length delim then closePending c css else css)
      in if remaining css < length delim then Inl OversizedContent
         else writeBytes c css (delim @ tx))"

fun writeAll ::
  "appconsts \<Rightarrow> CompactShareSplitter \<Rightarrow> bytes list \<Rightarrow> error + CompactShareSplitter" where
  "writeAll c css [] = Inr css"
| "writeAll c css (tx # txs) =
     (case WriteTx c css tx of Inl err \<Rightarrow> Inl err | Inr css' \<Rightarrow> writeAll c css' txs)"

fun padShares :: "appconsts \<Rightarrow> bytes list \<Rightarrow> error + bytes list" where
  "padShares c [] = Inr []"
| "padShares c (raw # raws) =
     (case padShare c raw of
        Inl err \<Rightarrow> Inl err
      | Inr share \<Rightarrow>
          (case padShares c raws of Inl err \<Rightarrow> Inl err | Inr shares \<Rightarrow> Inr (share # shares)))"

text \<open>
  Modelled from the spec: \<^verbatim>\<open>Export\<close>, section 4.2. An empty splitter yields no shares. Otherwise the first share gets the
  sequence-start flag and the total of bytes written as its four-byte length, the other
  shares the continuation info byte, and every share is padded to \<^verbatim>\<open>ShareSize\<close>. The
  result is the shares and the next free index.
\<close>

definition Export ::
  "appconsts \<Rightarrow> CompactShareSplitter \<Rightarrow> nat \<Rightarrow> error + (bytes list \<times> nat)" where
  "Export c css startIndex =
     (if bytesWritten css = 0 then Inr ([], startIndex)
      else
        (case NewInfoByte (shareVersion css) True of
           Inl err \<Rightarrow> Inl err
         | Inr startByte \<Rightarrow>
             (case NewInfoByte (shareVersion css) False of
                Inl err \<Rightarrow> Inl err
              | Inr contByte \<Rightarrow>
                  (case closedShares css @ [pendingShare css] of
                     [] \<Rightarrow> Inr ([], startIndex)
                   | firstContent # rest \<Rightarrow>
                       (case padShares c
                               ((namespace css @ [startByte] @ PutUint32 (bytesWritten css)
                                 @ firstContent)
                                # map (\<lambda>content. namespace css @ [contByte] @ content) rest) of
                          Inl err \<Rightarrow> Inl err
                        | Inr shares \<Rightarrow> Inr (shares, startIndex + length shares))))))"

text \<open>
  \<^verbatim>\<open>generateValidShareSequence\<close> of the test file, for any list of transactions: a new
  splitter for the transaction namespace and version 0, one \<^verbatim>\<open>WriteTx\<close> per transaction,
  \<^verbatim>\<open>Export(0)\<close>, and the sequence under the transaction namespace.
\<close>

definition generateValidShareSequence :: "appconsts \<Rightarrow> bytes list \<Rightarrow> error + ShareSequence" where
  "generateValidShareSequence c txs =
     (case writeAll c (NewCompactShareSplitter c (TxNamespaceID c) ShareVersionZero) txs of
        Inl err \<Rightarrow> Inl err
      | Inr css \<Rightarrow>
          (case Export c css 0 of
             Inl err \<Rightarrow> Inl err
           | Inr (shares, next) \<Rightarrow>
               Inr \<lparr> NamespaceID = TxNamespaceID c, Shares = shares \<rparr>))"

text \<open>The bytes a reader expects back: every transaction behind its delimiter.\<close>

definition delimitedTxs :: "bytes list \<Rightarrow> bytes" where
  "delimitedTxs txs = concat (map (\<lambda>tx. PutUvarint (length tx) @ tx) txs)"

section \<open>Auxiliary notions for the properties\<close>

text \<open>The two clamping steps at the end of \<^verbatim>\<open>estimateSquareSize\<close>, as one function.\<close>

definition clampSquareSize :: "appconsts \<Rightarrow> nat \<Rightarrow> nat" where
  "clampSquareSize c squareSize =
     (let squareSize = (if squareSize \<ge> DefaultMaxSquareSize c then DefaultMaxSquareSize c else squareSize)
      in if squareSize \<le> DefaultMinSquareSize c then DefaultMinSquareSize c else squareSize)"

text \<open>
  Go's \<^verbatim>\<open>int\<close> has 64 bits, and the estimator is modelled on unbounded integers. The two
  agree on a list whose byte total and share total stay below \<open>2 ^ 63\<close>: every sum the
  code forms on the way is between 0 and one of these totals.
\<close>

definition withinInt64 :: "appconsts \<Rightarrow> int \<Rightarrow> parsedTx list \<Rightarrow> bool" where
  "withinInt64 c overhead txs =
     ((\<Sum>p\<leftarrow>txs. txContribution overhead p) < 2 ^ 63
      \<and> sharesOfTxbytes c (\<Sum>p\<leftarrow>txs. txContribution overhead p) + blobSharesLoop c 0 txs
          < 2 ^ 63)"

text \<open>
  The length of a protobuf field that holds the varint \<open>v\<close> behind a one-byte tag, and
  nothing when \<open>v\<close> is 0.
\<close>

definition fieldLen :: "nat \<Rightarrow> nat" where
  "fieldLen v = (if v = 0 then 0 else 1 + length (PutUvarint v))"

text \<open>
  The state of a splitter that has written the bytes \<open>written\<close> without padding any
  share: the closed shares and the open share hold these bytes in order, the first closed
  share has the first-share capacity and the others the continuation capacity, and the
  bytes of the open share and its remaining budget add up to its capacity.
\<close>

definition splitterInv :: "appconsts \<Rightarrow> CompactShareSplitter \<Rightarrow> bytes \<Rightarrow> bool" where
  "splitterInv c css written =
     (concat (closedShares css) @ pendingShare css = written
      \<and> bytesWritten css = length written
      \<and> (\<forall>i < length (closedShares css).
            length (closedShares css ! i)
              = (if i = 0 then FirstCompactShareContentSize c
                 else ContinuationCompactShareContentSize c))
      \<and> length (concat (closedShares css))
          = (if closedShares css = [] then 0
             else FirstCompactShareContentSize c
                  + (length (closedShares css) - 1) * ContinuationCompactShareContentSize c)
      \<and> length (pendingShare css) + remaining css
          = (if closedShares css = [] then FirstCompactShareContentSize c
             else ContinuationCompactShareContentSize c))"

text \<open>A raw share with the zero padding that \<^verbatim>\<open>padShare\<close> adds.\<close>

definition zeroPadded :: "appconsts \<Rightarrow> bytes \<Rightarrow> bytes" where
  "zeroPadded c raw = raw @ replicate (ShareSize c - length raw) 0"

section \<open>Conditions on the constants and sample constants\<close>

definition squareSizesOK :: "appconsts \<Rightarrow> bool" where
  "squareSizesOK c =
     (isPowerOfTwo (DefaultMinSquareSize c) \<and> isPowerOfTwo (DefaultMaxSquareSize c)
      \<and> DefaultMinSquareSize c \<le> DefaultMaxSquareSize c)"

definition capacitiesOK :: "appconsts \<Rightarrow> bool" where
  "capacitiesOK c =
     (0 < FirstCompactShareContentSize c \<and> 0 < ContinuationCompactShareContentSize c
      \<and> 0 < FirstSparseShareContentSize c \<and> 0 < ContinuationSparseShareContentSize c)"

text \<open>
  The compact capacities are what the header leaves of a share, and the transaction
  namespace id has the namespace size.
\<close>

definition compactLayoutOK :: "appconsts \<Rightarrow> bool" where
  "compactLayoutOK c =
     (0 < FirstCompactShareContentSize c
      \<and> NamespaceSize c + 1 + SequenceLenBytes + FirstCompactShareContentSize c = ShareSize c
      \<and> NamespaceSize c + 1 + ContinuationCompactShareContentSize c = ShareSize c
      \<and> length (TxNamespaceID c) = NamespaceSize c)"

text \<open>
  The room left in the open share of a splitter that has written \<open>off\<close> bytes without
  padding, and the condition that no delimiter of a list of transactions meets a share with
  some room left but less than the delimiter needs.
\<close>

definition roomAt :: "appconsts \<Rightarrow> nat \<Rightarrow> nat" where
  "roomAt c off =
     (if off \<le> FirstCompactShareContentSize c then FirstCompactShareContentSize c - off
      else ContinuationCompactShareContentSize c
           - ((off - FirstCompactShareContentSize c - 1)
                mod ContinuationCompactShareContentSize c + 1))"

fun delimitersFit :: "appconsts \<Rightarrow> nat \<Rightarrow> bytes list \<Rightarrow> bool" where
  "delimitersFit c off [] = True"
| "delimitersFit c off (tx # txs) =
     ((length (PutUvarint (length tx)) \<le> roomAt c off
       \<or> (roomAt c off = 0 \<and> length (PutUvarint (length tx)) \<le> ContinuationCompactShareContentSize c))
      \<and> delimitersFit c (off + length (PutUvarint (length tx)) + length tx) txs)"

text \<open>
  Sample constants: shares of 512 bytes, namespace ids of 8 bytes, square sizes from 1 to
  128, and content capacities that fill what the header leaves.
\<close>

definition sampleConsts :: appconsts where
  "sampleConsts =
     \<lparr> ShareSize = 512, NamespaceSize = 8,
       DefaultMinSquareSize = 1, DefaultMaxSquareSize = 128,
       FirstCompactShareContentSize = 499, ContinuationCompactShareContentSize = 503,
       FirstSparseShareContentSize = 499, ContinuationSparseShareContentSize = 503,
       TxNamespaceID = [0, 0, 0, 0, 0, 0, 0, 1],
       TailPaddingNamespaceID = [255, 255, 255, 255, 255, 255, 255, 254],
       ReservedPaddingNamespaceID = [0, 0, 0, 0, 0, 0, 0, 255] \<rparr>"

text \<open>
  Sample transactions: a plain transaction of 200 bytes and a blob-bearing transaction of
  300 bytes whose blobs use 100000 bytes.
\<close>

definition sampleTxs :: "parsedTx list" where
  "sampleTxs =
     [\<lparr> normalTx = replicate 200 7, blobTx = \<lparr> Tx = [], DataUsed = 0 \<rparr> \<rparr>,
      \<lparr> normalTx = [], blobTx = \<lparr> Tx = replicate 300 9, DataUsed = 100000 \<rparr> \<rparr>]"

text \<open>A further blob-bearing transaction: 250 bytes, with blobs of 1000000 bytes.\<close>

definition sampleBlobTx :: parsedTx where
  "sampleBlobTx = \<lparr> normalTx = [], blobTx = \<lparr> Tx = replicate 250 3, DataUsed = 1000000 \<rparr> \<rparr>"

text \<open>
  Five transactions of 200 bytes, as in \<^verbatim>\<open>generateValidShareSequence\<close> of the test file;
  and two transactions of which the first leaves one byte of room in the first share,
  with the share sequence that the splitter exports for them.
\<close>

definition fiveTxs :: "bytes list" where
  "fiveTxs = [replicate 200 1, replicate 200 2, replicate 200 3, replicate 200 4, replicate 200 5]"

definition paddedTxs :: "bytes list" where
  "paddedTxs = [replicate 496 1, replicate 200 2]"

definition paddedSequence :: ShareSequence where
  "paddedSequence =
     \<lparr> NamespaceID = TxNamespaceID sampleConsts,
       Shares = [TxNamespaceID sampleConsts @ [1, 0, 0, 2, 188] @ [240, 3] @ replicate 496 1 @ [0],
                 TxNamespaceID sampleConsts @ [0] @ [200, 1] @ replicate 200 2 @ replicate 301 0] \<rparr>"

text \<open>A single transaction of \<open>2 ^ 32\<close> bytes.\<close>

definition hugeTx :: bytes where
  "hugeTx = replicate (2 ^ 32) 0"

text \<open>The blob namespace \<^verbatim>\<open>ns1\<close> of the test file: eight bytes of value 1.\<close>

definition ns1 :: bytes where
  "ns1 = [1, 1, 1, 1, 1, 1, 1, 1]"

text \<open>
  Shares as \<^verbatim>\<open>shareWithData\<close> builds them for the sample constants: the two shares of the
  test case that removes padding from the last share; a share that declares 1000 bytes
  and holds 499; a share whose three data bytes end in zeros; a share without the
  sequence-start flag and with zero content; the padding share of a namespace, which
  declares the length 0; and a padding share that declares 100000 bytes.
\<close>

definition testFirstShare :: bytes where
  "testFirstShare = ns1 @ [1, 0, 0, 1, 244] @ replicate 499 15"

definition testLastShare :: bytes where
  "testLastShare = ns1 @ [0, 15] @ replicate 502 0"

definition overDeclaringShare :: bytes where
  "overDeclaringShare = ns1 @ [1, 0, 0, 3, 232] @ replicate 499 15"


definition flaglessZeroShare :: bytes where
  "flaglessZeroShare = ns1 @ [0] @ replicate 503 0"

definition samplePaddingShare :: "bytes \<Rightarrow> bytes" where
  "samplePaddingShare ns = ns @ [1, 0, 0, 0, 0] @ replicate 499 0"

definition declaringPaddingShare :: bytes where
  "declaringPaddingShare = ns1 @ [1, 0, 1, 134, 160] @ replicate 499 0"

section \<open>Properties of the helpers\<close>

lemma length_PutUvarint_pos: "0 < length (PutUvarint x)"
  by (subst PutUvarint.simps) simp

lemma sharesOfTxbytes_ge1: "1 \<le> sharesOfTxbytes c t"
  by (auto simp: sharesOfTxbytes_def go_quot_def Let_def div_int_pos_iff)

lemma roundUpLoop_pow2: "\<exists>k. r = 2 ^ k \<Longrightarrow> \<exists>k. roundUpLoop r i = 2 ^ k"
proof (induction r i rule: roundUpLoop.induct)
  case (1 result input)
  show ?case
  proof (cases "result < input \<and> 0 < result")
    case True
    from "1.prems" obtain k where "result = 2 ^ k" by blast
    then have "2 * result = 2 ^ Suc k" by simp
    then have "\<exists>k. 2 * result = 2 ^ k" by blast
    with "1.IH" True have "\<exists>k. roundUpLoop (2 * result) input = 2 ^ k" by blast
    with True show ?thesis by (subst roundUpLoop.simps) simp
  next
    case False
    with "1.prems" show ?thesis by (subst roundUpLoop.simps) auto
  qed
qed

lemma RoundUpPowerOfTwo_pow2: "\<exists>k. RoundUpPowerOfTwo i = 2 ^ k"
  unfolding RoundUpPowerOfTwo_def by (rule roundUpLoop_pow2) (rule exI[of _ 0], simp)

lemma isPowerOfTwo_iff: "isPowerOfTwo n \<longleftrightarrow> (\<exists>k. n = 2 ^ k)"
proof (induction n rule: isPowerOfTwo.induct)
  case (1 n)
  show ?case
  proof (cases "n \<le> 1")
    case True
    then have "n = 0 \<or> n = 1" by arith
    then show ?thesis
    proof
      assume "n = 0" then show ?thesis by (subst isPowerOfTwo.simps) simp
    next
      assume "n = 1" then show ?thesis by (subst isPowerOfTwo.simps) (auto intro: exI[of _ 0])
    qed
  next
    case False
    have "(even n \<and> (\<exists>k. n div 2 = 2 ^ k)) \<longleftrightarrow> (\<exists>k. n = 2 ^ k)"
    proof
      assume a: "even n \<and> (\<exists>k. n div 2 = 2 ^ k)"
      then obtain k where "n div 2 = 2 ^ k" by blast
      with a have "n = 2 ^ Suc k" by auto
      then show "\<exists>k. n = 2 ^ k" by blast
    next
      assume "\<exists>k. n = 2 ^ k"
      then obtain k where k: "n = 2 ^ k" by blast
      with False have "k \<noteq> 0" by (cases k) auto
      then obtain j where "k = Suc j" by (cases k) auto
      with k show "even n \<and> (\<exists>k. n div 2 = 2 ^ k)" by auto
    qed
    with "1.IH" False show ?thesis by (subst isPowerOfTwo.simps) simp
  qed
qed

lemma txbytesLoop_sum: "txbytesLoop ov acc ptxs = acc + (\<Sum>p\<leftarrow>ptxs. txContribution ov p)"
  by (induction ptxs arbitrary: acc) (simp_all add: txContribution_def delimitedLen_def Let_def)

lemma blobSharesLoop_nonneg: "0 \<le> acc \<Longrightarrow> 0 \<le> blobSharesLoop c acc txs"
  by (induction txs arbitrary: acc) simp_all

lemma estimateSquareSize_second:
  assumes "estimateCompactShares c m (of_nat (DefaultMaxSquareSize c)) txs = Inr n"
  shows "\<exists>squareSize. estimateSquareSize c m minSizeOf txs = Inr (squareSize, n)"
  using assms by (simp add: estimateSquareSize_def Let_def)

lemma sample_overhead:
  "maxWrappedTxOverhead sampleConsts MarshalIndexWrapper (of_nat (DefaultMaxSquareSize sampleConsts)) = Inr 15"
  by (simp add: maxWrappedTxOverhead_def sampleConsts_def MarshalIndexWrapper_def
      protoBytesField_def protoVarintField_def PutUvarint.simps)

lemma sample_compact:
  "estimateCompactShares sampleConsts MarshalIndexWrapper (of_nat (DefaultMaxSquareSize sampleConsts)) sampleTxs = Inr 2"
  unfolding estimateCompactShares_def sample_overhead
  by (simp add: sampleTxs_def sharesOfTxbytes_def DelimLen_def uint64_of_int_def
      PutUvarint.simps go_quot_def sampleConsts_def)

lemma sample_blob: "blobSharesLoop sampleConsts 0 sampleTxs = 199"
  by (simp add: sampleTxs_def SparseSharesNeeded_def sharesNeeded_def uint32_of_int_def sampleConsts_def)

lemma sample_minSize: "RoundUpPowerOfTwo (exactMinSize 201) = 32"
  by (simp add: exactMinSize_def ceilSqrtLoop.simps RoundUpPowerOfTwo_def roundUpLoop.simps)

lemma sample_estimate:
  "estimateSquareSize sampleConsts MarshalIndexWrapper exactMinSize sampleTxs = Inr (32, 2)"
  unfolding estimateSquareSize_def sample_compact
  by (simp add: sample_blob sample_minSize) (simp add: sampleConsts_def)

lemma sample_squareSizesOK: "squareSizesOK sampleConsts"
  by (simp add: squareSizesOK_def sampleConsts_def isPowerOfTwo.simps)

section \<open>Properties of the square size estimator\<close>

text \<open>
  Claim C5. The second component returned by \<^verbatim>\<open>estimateSquareSize\<close> is the compact share count
  that \<^verbatim>\<open>estimateCompactShares\<close> gives at \<^verbatim>\<open>DefaultMaxSquareSize\<close>, whatever square size
  is returned beside it and whatever the floating-point step yields.
\<close>

theorem estimateSquareSize_nonreserveStart:
  assumes "estimateCompactShares c m (of_nat (DefaultMaxSquareSize c)) txs = Inr n"
  shows "\<exists>squareSize. estimateSquareSize c m minSizeOf txs = Inr (squareSize, n)"
  using assms by (rule estimateSquareSize_second)

theorem estimateSquareSize_nonreserveStart_witness:
  "estimateCompactShares sampleConsts MarshalIndexWrapper
     (of_nat (DefaultMaxSquareSize sampleConsts)) sampleTxs = Inr 2
   \<and> (\<exists>squareSize. estimateSquareSize sampleConsts MarshalIndexWrapper exactMinSize sampleTxs
         = Inr (squareSize, 2))"
  using estimateSquareSize_nonreserveStart [OF sample_compact, of exactMinSize] sample_compact
  by simp

lemma txbytesLoopCounted_eq:
  "txbytesLoopCounted ov acc ptxs calls = (txbytesLoop ov acc ptxs, calls)"
  by (induction ptxs arbitrary: acc) (simp_all add: Let_def)

lemma maxWrappedTxOverheadCounted_eq:
  "maxWrappedTxOverheadCounted c m squareSize calls = (maxWrappedTxOverhead c m squareSize, Suc calls)"
  by (simp add: maxWrappedTxOverheadCounted_def maxWrappedTxOverhead_def Let_def split: sum.splits)

text \<open>
  Claim C6. The byte total of \<^verbatim>\<open>estimateCompactShares\<close> is the sum of the contributions of
  the transactions: a plain transaction contributes its raw length plus the delimiter sized
  on it, a blob-bearing one its length plus the overhead, plus the delimiter sized on that
  sum. The overhead is the value \<^verbatim>\<open>maxWrappedTxOverhead\<close> has at the candidate square size,
  and it is computed once: whatever the list of transactions, the serialiser has been
  called exactly once more when \<^verbatim>\<open>estimateCompactShares\<close> returns.
\<close>

theorem estimateCompactShares_byte_total:
  "estimateCompactShares c m squareSize ptxs =
     (case maxWrappedTxOverhead c m squareSize of
        Inl err \<Rightarrow> Inl err
      | Inr overhead \<Rightarrow> Inr (sharesOfTxbytes c (\<Sum>p\<leftarrow>ptxs. txContribution overhead p)))
   \<and> txbytesLoop overhead 0 ptxs = (\<Sum>p\<leftarrow>ptxs. txContribution overhead p)
   \<and> estimateCompactSharesCounted c m squareSize ptxs calls
       = (estimateCompactShares c m squareSize ptxs, Suc calls)"
  by (simp add: estimateCompactShares_def estimateCompactSharesCounted_def txbytesLoop_sum
      maxWrappedTxOverheadCounted_eq txbytesLoopCounted_eq split: sum.splits)

text \<open>
  Claim C10. Whenever the wrapper can be serialised, \<^verbatim>\<open>estimateCompactShares\<close> returns at
  least 1 for every list, the empty one included; so the total of shares used in
  \<^verbatim>\<open>estimateSquareSize\<close> is at least 1 and so is the returned \<^verbatim>\<open>nonreserveStart\<close>.
\<close>

theorem estimateCompactShares_at_least_one:
  "(maxWrappedTxOverhead c m squareSize = Inr ov \<longrightarrow>
      (\<exists>n. estimateCompactShares c m squareSize ptxs = Inr n \<and> 1 \<le> n)) \<and>
   (maxWrappedTxOverhead c m (of_nat (DefaultMaxSquareSize c)) = Inr ov' \<longrightarrow>
      (\<exists>squareSize n. estimateSquareSize c m minSizeOf ptxs = Inr (squareSize, n) \<and> 1 \<le> n
               \<and> 1 \<le> n + blobSharesLoop c 0 ptxs))"
proof (intro conjI impI)
  assume "maxWrappedTxOverhead c m squareSize = Inr ov"
  then show "\<exists>n. estimateCompactShares c m squareSize ptxs = Inr n \<and> 1 \<le> n"
    by (simp add: estimateCompactShares_def sharesOfTxbytes_ge1)
next
  assume a: "maxWrappedTxOverhead c m (of_nat (DefaultMaxSquareSize c)) = Inr ov'"
  let ?n = "sharesOfTxbytes c (txbytesLoop ov' 0 ptxs)"
  from a have e: "estimateCompactShares c m (of_nat (DefaultMaxSquareSize c)) ptxs = Inr ?n"
    by (simp add: estimateCompactShares_def)
  have n1: "1 \<le> ?n" by (rule sharesOfTxbytes_ge1)
  have "0 \<le> blobSharesLoop c 0 ptxs" by (rule blobSharesLoop_nonneg) simp
  with n1 have t: "1 \<le> ?n + blobSharesLoop c 0 ptxs" by arith
  from estimateSquareSize_second [OF e]
  obtain sq where "estimateSquareSize c m minSizeOf ptxs = Inr (sq, ?n)" by blast
  with n1 t show "\<exists>squareSize n. estimateSquareSize c m minSizeOf ptxs = Inr (squareSize, n) \<and> 1 \<le> n
               \<and> 1 \<le> n + blobSharesLoop c 0 ptxs" by blast
qed

theorem estimateCompactShares_at_least_one_witness:
  "maxWrappedTxOverhead sampleConsts MarshalIndexWrapper
     (of_nat (DefaultMaxSquareSize sampleConsts)) = Inr 15
   \<and> (\<exists>n. estimateCompactShares sampleConsts MarshalIndexWrapper
             (of_nat (DefaultMaxSquareSize sampleConsts)) [] = Inr n \<and> 1 \<le> n)
   \<and> (\<exists>squareSize n. estimateSquareSize sampleConsts MarshalIndexWrapper exactMinSize [] = Inr (squareSize, n)
         \<and> 1 \<le> n \<and> 1 \<le> n + blobSharesLoop sampleConsts 0 [])"
  using estimateCompactShares_at_least_one
          [of sampleConsts MarshalIndexWrapper "of_nat (DefaultMaxSquareSize sampleConsts)" 15 "[]" 15 exactMinSize]
        sample_overhead
  by simp

text \<open>
  Claim C2. With square size constants that are powers of two, the smaller one first,
  \<^verbatim>\<open>estimateSquareSize\<close> returns a power of two between \<^verbatim>\<open>DefaultMinSquareSize\<close> and
  \<^verbatim>\<open>DefaultMaxSquareSize\<close>, whatever the floating-point step yields; and when the compact
  and sparse share counts sum to at most 1 it returns \<^verbatim>\<open>DefaultMinSquareSize\<close> and the
  compact share count.
\<close>

theorem estimateSquareSize_power_of_two_in_range:
  assumes ok: "squareSizesOK c"
    and ov: "maxWrappedTxOverhead c m (of_nat (DefaultMaxSquareSize c)) = Inr ov"
  shows "\<exists>squareSize n.
           estimateSquareSize c m minSizeOf txs = Inr (squareSize, n)
         \<and> (\<exists>k. squareSize = 2 ^ k)
         \<and> DefaultMinSquareSize c \<le> squareSize \<and> squareSize \<le> DefaultMaxSquareSize c
         \<and> estimateCompactShares c m (of_nat (DefaultMaxSquareSize c)) txs = Inr n
         \<and> (n + blobSharesLoop c 0 txs \<le> 1 \<longrightarrow> squareSize = DefaultMinSquareSize c)"
proof -
  let ?n = "sharesOfTxbytes c (txbytesLoop ov 0 txs)"
  from ov have e: "estimateCompactShares c m (of_nat (DefaultMaxSquareSize c)) txs = Inr ?n"
    by (simp add: estimateCompactShares_def)
  from ok have le: "DefaultMinSquareSize c \<le> DefaultMaxSquareSize c"
    by (simp add: squareSizesOK_def)
  from ok obtain a where a: "DefaultMinSquareSize c = 2 ^ a"
    by (auto simp: squareSizesOK_def isPowerOfTwo_iff)
  from ok obtain b where b: "DefaultMaxSquareSize c = 2 ^ b"
    by (auto simp: squareSizesOK_def isPowerOfTwo_iff)
  obtain r where r: "RoundUpPowerOfTwo (minSizeOf (?n + blobSharesLoop c 0 txs)) = 2 ^ r"
    using RoundUpPowerOfTwo_pow2 by blast
  show ?thesis
  proof (cases "?n + blobSharesLoop c 0 txs \<le> 1")
    case True
    with e le a show ?thesis by (auto simp: estimateSquareSize_def Let_def)
  next
    case False
    with e le a b r show ?thesis by (auto simp: estimateSquareSize_def Let_def)
  qed
qed

theorem estimateSquareSize_power_of_two_in_range_witness:
  "squareSizesOK sampleConsts
   \<and> maxWrappedTxOverhead sampleConsts MarshalIndexWrapper
        (of_nat (DefaultMaxSquareSize sampleConsts)) = Inr 15
   \<and> estimateSquareSize sampleConsts MarshalIndexWrapper exactMinSize sampleTxs = Inr (32, 2)
   \<and> (\<exists>squareSize n.
           estimateSquareSize sampleConsts MarshalIndexWrapper exactMinSize sampleTxs = Inr (squareSize, n)
         \<and> (\<exists>k. squareSize = 2 ^ k)
         \<and> DefaultMinSquareSize sampleConsts \<le> squareSize
         \<and> squareSize \<le> DefaultMaxSquareSize sampleConsts
         \<and> estimateCompactShares sampleConsts MarshalIndexWrapper
              (of_nat (DefaultMaxSquareSize sampleConsts)) sampleTxs = Inr n
         \<and> (n + blobSharesLoop sampleConsts 0 sampleTxs \<le> 1
              \<longrightarrow> squareSize = DefaultMinSquareSize sampleConsts))"
  using estimateSquareSize_power_of_two_in_range
          [OF sample_squareSizesOK sample_overhead, of exactMinSize sampleTxs]
        sample_squareSizesOK sample_overhead sample_estimate
  by blast

section \<open>Share counts\<close>

lemma sharesNeeded_zero: "sharesNeeded F C 0 = 0"
  by (simp add: sharesNeeded_def)

lemma sharesNeeded_one: "0 < F \<Longrightarrow> sharesNeeded F C 1 = 1"
  by (simp add: sharesNeeded_def)

lemma sharesNeeded_first: "0 < F \<Longrightarrow> sharesNeeded F C F = 1"
  by (simp add: sharesNeeded_def)

lemma sharesNeeded_first_plus_one: "0 < C \<Longrightarrow> sharesNeeded F C (F + 1) = 2"
  by (simp add: sharesNeeded_def)

lemma sharesNeeded_multiple:
  assumes F: "0 < F" and C: "0 < C"
  shows "sharesNeeded F C (F + k * C) = k + 1"
proof (cases "k = 0")
  case True
  with F show ?thesis by (simp add: sharesNeeded_def)
next
  case False
  with C have pos: "0 < k * C" by simp
  from C have "k * C + C - Suc 0 = (C - 1) + k * C" by simp
  moreover from C have "((C - 1) + k * C) div C = k + (C - 1) div C"
    by (intro div_mult_self1) simp
  moreover from C have "(C - 1) div C = 0" by simp
  ultimately have "(k * C + C - Suc 0) div C = k" by (simp only: add_0_right)
  with pos F show ?thesis by (simp add: sharesNeeded_def)
qed

lemma sample_capacitiesOK: "capacitiesOK sampleConsts"
  by (simp add: capacitiesOK_def sampleConsts_def)

text \<open>
  Claim C9. With positive capacities, \<^verbatim>\<open>CompactSharesNeeded\<close> is 0 at 0, 1 at 1 and at the
  first-share capacity, 2 one byte beyond it, and \<open>k + 1\<close> at the first-share capacity plus
  \<open>k\<close> continuation capacities, for every \<open>k\<close>; \<^verbatim>\<open>SparseSharesNeeded\<close> has the same values at
  the sparse capacities.
\<close>

theorem sharesNeeded_boundaries:
  assumes "capacitiesOK c"
  shows "CompactSharesNeeded c 0 = 0
       \<and> CompactSharesNeeded c 1 = 1
       \<and> CompactSharesNeeded c (FirstCompactShareContentSize c) = 1
       \<and> CompactSharesNeeded c (FirstCompactShareContentSize c + 1) = 2
       \<and> CompactSharesNeeded c
            (FirstCompactShareContentSize c + k * ContinuationCompactShareContentSize c) = k + 1
       \<and> SparseSharesNeeded c 0 = 0
       \<and> SparseSharesNeeded c 1 = 1
       \<and> SparseSharesNeeded c (FirstSparseShareContentSize c) = 1
       \<and> SparseSharesNeeded c (FirstSparseShareContentSize c + 1) = 2
       \<and> SparseSharesNeeded c
            (FirstSparseShareContentSize c + k * ContinuationSparseShareContentSize c) = k + 1"
proof -
  from assms have fc: "0 < FirstCompactShareContentSize c"
    and cc: "0 < ContinuationCompactShareContentSize c"
    and fs: "0 < FirstSparseShareContentSize c"
    and cs: "0 < ContinuationSparseShareContentSize c"
    by (simp_all add: capacitiesOK_def)
  show ?thesis
    unfolding CompactSharesNeeded_def SparseSharesNeeded_def
    by (intro conjI sharesNeeded_zero sharesNeeded_one sharesNeeded_first
        sharesNeeded_first_plus_one sharesNeeded_multiple fc cc fs cs)
qed

theorem sharesNeeded_boundaries_witness:
  "capacitiesOK sampleConsts
   \<and> CompactSharesNeeded sampleConsts 0 = 0
   \<and> CompactSharesNeeded sampleConsts 1 = 1
   \<and> CompactSharesNeeded sampleConsts 499 = 1
   \<and> CompactSharesNeeded sampleConsts 500 = 2
   \<and> CompactSharesNeeded sampleConsts (499 + 100 * 503) = 101
   \<and> SparseSharesNeeded sampleConsts 0 = 0
   \<and> SparseSharesNeeded sampleConsts 1 = 1
   \<and> SparseSharesNeeded sampleConsts 499 = 1
   \<and> SparseSharesNeeded sampleConsts 500 = 2
   \<and> SparseSharesNeeded sampleConsts (499 + 99 * 503) = 100"
  using sharesNeeded_boundaries [OF sample_capacitiesOK, of 100]
        sharesNeeded_boundaries [OF sample_capacitiesOK, of 99] sample_capacitiesOK
  by (simp add: sampleConsts_def)

section \<open>Reading shares\<close>

lemma Uint32_PutUint32:
  assumes "v < 2 ^ 32"
  shows "Uint32 (PutUint32 v) = v"
proof -
  define q1 where "q1 = v div 256"
  define q2 where "q2 = q1 div 256"
  define q3 where "q3 = q2 div 256"
  have d8: "v div 2 ^ 8 = q1" by (simp add: q1_def)
  have d16: "v div 2 ^ 16 = q2" by (simp add: q2_def q1_def div_mult2_eq)
  have d24: "v div 2 ^ 24 = q3" by (simp add: q3_def q2_def q1_def div_mult2_eq)
  from assms have "q3 < 256" unfolding d24 [symmetric] by (simp add: less_mult_imp_div_less)
  then have m3: "q3 mod 256 = q3" by simp
  have e3: "256 * q3 + q2 mod 256 = q2" unfolding q3_def by (rule mult_div_mod_eq)
  have e2: "256 * q2 + q1 mod 256 = q1" unfolding q2_def by (rule mult_div_mod_eq)
  have e1: "256 * q1 + v mod 256 = v" unfolding q1_def by (rule mult_div_mod_eq)
  have "Uint32 (PutUint32 v) = 256 * (256 * (256 * (q3 mod 256) + q2 mod 256) + q1 mod 256) + v mod 256"
    unfolding Uint32_def PutUint32_def d8 d16 d24 by (simp add: unat_of_nat)
  also have "\<dots> = v" unfolding m3 e3 e2 e1 ..
  finally show ?thesis .
qed

lemma length_PutUint32: "length (PutUint32 v) = 4"
  by (simp add: PutUint32_def)

lemma NewInfoByte_start: "NewInfoByte ShareVersionZero True = Inr 1"
  by (simp add: NewInfoByte_def ShareVersionZero_def)

lemma NewInfoByte_continuation: "NewInfoByte ShareVersionZero False = Inr 0"
  by (simp add: NewInfoByte_def ShareVersionZero_def)

lemma isSequenceStart_header:
  "length ns = NamespaceSize c \<Longrightarrow> isSequenceStart c (ns @ b # xs) = (b AND 1 = 1)"
  by (simp add: isSequenceStart_def infoByteOf_def)

lemma shareSequenceLen_header:
  "length ns = NamespaceSize c \<Longrightarrow> length l = 4 \<Longrightarrow>
   shareSequenceLen c (ns @ b # l @ xs) = Uint32 l"
  by (simp add: shareSequenceLen_def SequenceLenBytes_def)

lemma contentBytes_start:
  "length ns = NamespaceSize c \<Longrightarrow> length l = 4 \<Longrightarrow>
   contentBytes c (ns @ 1 # l @ xs) = xs"
  by (simp add: contentBytes_def isSequenceStart_header SequenceLenBytes_def)

lemma contentBytes_continuation:
  "length ns = NamespaceSize c \<Longrightarrow> contentBytes c (ns @ 0 # xs) = xs"
  by (simp add: contentBytes_def isSequenceStart_header)

lemma shareWithData_start:
  assumes "shareWithData c ns True n d = Inr share"
  shows "share = ns @ 1 # PutUint32 n @ d @ replicate (ShareSize c - (length ns + 5 + length d)) 0"
  using assms
  by (auto simp: shareWithData_def NewInfoByte_start padShare_def length_PutUint32 add.assoc
      split: if_splits)


lemma isPadding_flagless:
  assumes "Shares s = first # rest" and "\<not> isSequenceStart c first"
  shows "isPadding c s \<longleftrightarrow>
           NamespaceID s = TailPaddingNamespaceID c \<or> NamespaceID s = ReservedPaddingNamespaceID c"
  using assms by (cases rest) (simp_all add: isPadding_def)

lemma padding_shareWithData:
  assumes ns: "length ns = NamespaceSize c"
    and sh: "shareWithData c ns True declaredLen [] = Inr share"
  shows "isSequenceStart c share \<and> list_all (\<lambda>b. b = 0) (contentBytes c share)"
proof -
  let ?pad = "replicate (ShareSize c - (length ns + 5)) (0 :: 8 word)"
  from shareWithData_start [OF sh]
  have share: "share = ns @ 1 # PutUint32 declaredLen @ ([] @ ?pad)" by simp
  have "isSequenceStart c share"
    unfolding share using ns by (simp add: isSequenceStart_header)
  moreover have "contentBytes c share = [] @ ?pad"
    unfolding share using ns by (rule contentBytes_start) (rule length_PutUint32)
  ultimately show ?thesis by (simp add: list_all_iff)
qed

text \<open>The shares of the test file for the sample constants.\<close>

lemma sample_ns1: "length ns1 = NamespaceSize sampleConsts"
  by (simp add: ns1_def sampleConsts_def)

lemma sample_ns1_not_padding:
  "ns1 \<noteq> TailPaddingNamespaceID sampleConsts \<and> ns1 \<noteq> ReservedPaddingNamespaceID sampleConsts"
  by (simp add: ns1_def sampleConsts_def)

lemma testFirstShare_built:
  "shareWithData sampleConsts ns1 True 500 (replicate 499 15) = Inr testFirstShare"
  by (simp add: shareWithData_def NewInfoByte_def ShareVersionZero_def padShare_def PutUint32_def
      sampleConsts_def ns1_def testFirstShare_def)

lemma testLastShare_built:
  "shareWithData sampleConsts ns1 False 0 [15] = Inr testLastShare"
  by (simp add: shareWithData_def NewInfoByte_def ShareVersionZero_def padShare_def PutUint32_def
      sampleConsts_def ns1_def testLastShare_def)


lemma samplePaddingShare_built:
  "shareWithData sampleConsts ns1 True 0 [] = Inr (samplePaddingShare ns1)"
  by (simp add: shareWithData_def NewInfoByte_def ShareVersionZero_def padShare_def PutUint32_def
      sampleConsts_def ns1_def samplePaddingShare_def)

lemma declaringPaddingShare_built:
  "shareWithData sampleConsts ns1 True 100000 [] = Inr declaringPaddingShare"
  by (simp add: shareWithData_def NewInfoByte_def ShareVersionZero_def padShare_def PutUint32_def
      sampleConsts_def ns1_def declaringPaddingShare_def)

lemma overDeclaringShare_built:
  "shareWithData sampleConsts ns1 True 1000 (replicate 499 15) = Inr overDeclaringShare"
  by (simp add: shareWithData_def NewInfoByte_def ShareVersionZero_def padShare_def PutUint32_def
      sampleConsts_def ns1_def overDeclaringShare_def)

lemma flaglessZeroShare_built:
  "shareWithData sampleConsts ns1 False 0 [] = Inr flaglessZeroShare"
  by (simp add: shareWithData_def NewInfoByte_def ShareVersionZero_def padShare_def PutUint32_def
      sampleConsts_def ns1_def flaglessZeroShare_def)


lemma testLastShare_read:
  "\<not> isSequenceStart sampleConsts testLastShare
   \<and> contentBytes sampleConsts testLastShare = 15 # replicate 502 0"
  by (simp add: isSequenceStart_def infoByteOf_def contentBytes_def
      sampleConsts_def ns1_def testLastShare_def)


lemma flaglessZeroShare_read: "\<not> isSequenceStart sampleConsts flaglessZeroShare"
  by (simp add: isSequenceStart_def infoByteOf_def sampleConsts_def ns1_def flaglessZeroShare_def)

lemma samplePaddingShare_read:
  "length ns = 8 \<Longrightarrow>
   isSequenceStart sampleConsts (samplePaddingShare ns)
   \<and> list_all (\<lambda>b. b = 0) (contentBytes sampleConsts (samplePaddingShare ns))"
  by (simp add: isSequenceStart_def infoByteOf_def contentBytes_def SequenceLenBytes_def
      list_all_iff sampleConsts_def samplePaddingShare_def)

section \<open>Reconstruction and validation of share sequences\<close>




text \<open>
  Claim C4. \<^verbatim>\<open>validSequenceLen\<close> fails on a sequence without shares. It fails with
  \<^verbatim>\<open>SequenceLenMismatch\<close> on every sequence whose first share lacks the sequence-start
  flag and whose namespace is neither the tail-padding nor the reserved-padding one; these
  are the sequences without the flag that are not padding. It succeeds on every non-empty
  sequence under the tail-padding or the reserved-padding namespace and on every single
  share that starts a sequence and has zero content, whatever length the share declares:
  in particular on the padding share that \<^verbatim>\<open>shareWithData\<close> builds for any declared length.
\<close>

theorem validSequenceLen_spec:
  "(Shares s = [] \<longrightarrow> validSequenceLen c s = Inl EmptySequence)
   \<and> (Shares s = first # rest \<and> \<not> isSequenceStart c first
        \<and> NamespaceID s \<noteq> TailPaddingNamespaceID c
        \<and> NamespaceID s \<noteq> ReservedPaddingNamespaceID c
        \<longrightarrow> \<not> isPadding c s \<and> validSequenceLen c s = Inl SequenceLenMismatch)
   \<and> (Shares s = first # rest \<and> \<not> isSequenceStart c first \<and> \<not> isPadding c s
        \<longrightarrow> validSequenceLen c s = Inl SequenceLenMismatch)
   \<and> (Shares s \<noteq> [] \<and> NamespaceID s = TailPaddingNamespaceID c
        \<longrightarrow> validSequenceLen c s = Inr ())
   \<and> (Shares s \<noteq> [] \<and> NamespaceID s = ReservedPaddingNamespaceID c
        \<longrightarrow> validSequenceLen c s = Inr ())
   \<and> (Shares s = [share] \<and> isSequenceStart c share
        \<and> list_all (\<lambda>b. b = 0) (contentBytes c share)
        \<longrightarrow> validSequenceLen c s = Inr ())
   \<and> (length ns = NamespaceSize c \<and> shareWithData c ns True declaredLen [] = Inr padding
        \<longrightarrow> validSequenceLen c \<lparr> NamespaceID = ns, Shares = [padding] \<rparr> = Inr ())"
proof -
  have c1: "Shares s = [] \<longrightarrow> validSequenceLen c s = Inl EmptySequence"
    by (simp add: validSequenceLen_def)
  have c2: "Shares s = first # rest \<and> \<not> isSequenceStart c first
        \<and> NamespaceID s \<noteq> TailPaddingNamespaceID c
        \<and> NamespaceID s \<noteq> ReservedPaddingNamespaceID c
        \<longrightarrow> \<not> isPadding c s \<and> validSequenceLen c s = Inl SequenceLenMismatch"
    by (auto simp: isPadding_flagless validSequenceLen_def)
  have c3: "Shares s = first # rest \<and> \<not> isSequenceStart c first \<and> \<not> isPadding c s
        \<longrightarrow> validSequenceLen c s = Inl SequenceLenMismatch"
    by (simp add: validSequenceLen_def)
  have c4: "Shares s \<noteq> [] \<and> NamespaceID s = TailPaddingNamespaceID c
        \<longrightarrow> validSequenceLen c s = Inr ()"
    by (cases "Shares s") (simp_all add: validSequenceLen_def isPadding_def)
  have c5: "Shares s \<noteq> [] \<and> NamespaceID s = ReservedPaddingNamespaceID c
        \<longrightarrow> validSequenceLen c s = Inr ()"
    by (cases "Shares s") (simp_all add: validSequenceLen_def isPadding_def)
  have c6: "Shares s = [share] \<and> isSequenceStart c share
        \<and> list_all (\<lambda>b. b = 0) (contentBytes c share)
        \<longrightarrow> validSequenceLen c s = Inr ()"
    by (simp add: validSequenceLen_def isPadding_def)
  have c7: "length ns = NamespaceSize c \<and> shareWithData c ns True declaredLen [] = Inr padding
        \<longrightarrow> validSequenceLen c \<lparr> NamespaceID = ns, Shares = [padding] \<rparr> = Inr ()"
  proof
    assume "length ns = NamespaceSize c \<and> shareWithData c ns True declaredLen [] = Inr padding"
    then have "isSequenceStart c padding \<and> list_all (\<lambda>b. b = 0) (contentBytes c padding)"
      by (elim conjE) (rule padding_shareWithData)
    then show "validSequenceLen c \<lparr> NamespaceID = ns, Shares = [padding] \<rparr> = Inr ()"
      by (simp add: validSequenceLen_def isPadding_def)
  qed
  from c1 c2 c3 c4 c5 c6 c7 show ?thesis by (intro conjI)
qed

theorem validSequenceLen_spec_witness:
  "validSequenceLen sampleConsts \<lparr> NamespaceID = [], Shares = [] \<rparr> = Inl EmptySequence
   \<and> validSequenceLen sampleConsts \<lparr> NamespaceID = ns1, Shares = [testLastShare] \<rparr>
       = Inl SequenceLenMismatch
   \<and> validSequenceLen sampleConsts \<lparr> NamespaceID = ns1, Shares = [flaglessZeroShare] \<rparr>
       = Inl SequenceLenMismatch
   \<and> validSequenceLen sampleConsts
        \<lparr> NamespaceID = TailPaddingNamespaceID sampleConsts,
          Shares = [samplePaddingShare (TailPaddingNamespaceID sampleConsts)] \<rparr> = Inr ()
   \<and> validSequenceLen sampleConsts
        \<lparr> NamespaceID = ReservedPaddingNamespaceID sampleConsts,
          Shares = [samplePaddingShare (ReservedPaddingNamespaceID sampleConsts)] \<rparr> = Inr ()
   \<and> validSequenceLen sampleConsts \<lparr> NamespaceID = ns1, Shares = [samplePaddingShare ns1] \<rparr>
       = Inr ()
   \<and> validSequenceLen sampleConsts \<lparr> NamespaceID = ns1, Shares = [declaringPaddingShare] \<rparr>
       = Inr ()"
proof -
  let ?c = sampleConsts
  let ?tail = "samplePaddingShare (TailPaddingNamespaceID ?c)"
  let ?res = "samplePaddingShare (ReservedPaddingNamespaceID ?c)"
  have "validSequenceLen ?c \<lparr> NamespaceID = [], Shares = [] \<rparr> = Inl EmptySequence"
    using validSequenceLen_spec [where s = "\<lparr> NamespaceID = [], Shares = [] \<rparr>" and c = ?c]
    by simp
  moreover have "validSequenceLen ?c \<lparr> NamespaceID = ns1, Shares = [testLastShare] \<rparr>
                   = Inl SequenceLenMismatch"
    using validSequenceLen_spec [where s = "\<lparr> NamespaceID = ns1, Shares = [testLastShare] \<rparr>"
            and c = ?c and first = testLastShare and rest = "[]"]
          sample_ns1_not_padding testLastShare_read
    by simp
  moreover have "validSequenceLen ?c \<lparr> NamespaceID = ns1, Shares = [flaglessZeroShare] \<rparr>
                   = Inl SequenceLenMismatch"
    using validSequenceLen_spec [where s = "\<lparr> NamespaceID = ns1, Shares = [flaglessZeroShare] \<rparr>"
            and c = ?c and first = flaglessZeroShare and rest = "[]"]
          sample_ns1_not_padding flaglessZeroShare_read
    by simp
  moreover have "validSequenceLen ?c \<lparr> NamespaceID = TailPaddingNamespaceID ?c, Shares = [?tail] \<rparr>
                   = Inr ()"
    using validSequenceLen_spec
            [where s = "\<lparr> NamespaceID = TailPaddingNamespaceID ?c, Shares = [?tail] \<rparr>" and c = ?c]
    by simp
  moreover have "validSequenceLen ?c
                   \<lparr> NamespaceID = ReservedPaddingNamespaceID ?c, Shares = [?res] \<rparr> = Inr ()"
    using validSequenceLen_spec
            [where s = "\<lparr> NamespaceID = ReservedPaddingNamespaceID ?c, Shares = [?res] \<rparr>" and c = ?c]
    by simp
  moreover have "validSequenceLen ?c \<lparr> NamespaceID = ns1, Shares = [samplePaddingShare ns1] \<rparr>
                   = Inr ()"
    using validSequenceLen_spec [where s = "\<lparr> NamespaceID = ns1, Shares = [samplePaddingShare ns1] \<rparr>"
            and c = ?c and share = "samplePaddingShare ns1"]
          samplePaddingShare_read [of ns1]
    by (simp add: ns1_def)
  moreover have "validSequenceLen ?c \<lparr> NamespaceID = ns1, Shares = [declaringPaddingShare] \<rparr>
                   = Inr ()"
    using validSequenceLen_spec [where c = ?c and ns = ns1 and declaredLen = 100000
            and padding = declaringPaddingShare] sample_ns1 declaringPaddingShare_built
    by simp
  ultimately show ?thesis by blast
qed

section \<open>Monotonicity of the square size estimate\<close>

lemma roundUpLoop_ge_start: "r \<le> roundUpLoop r j"
proof (induction r j rule: roundUpLoop.induct)
  case (1 result input)
  show ?case
  proof (cases "result < input \<and> 0 < result")
    case True
    with "1.IH" have "2 * result \<le> roundUpLoop (2 * result) input" by simp
    with True show ?thesis by (subst roundUpLoop.simps) simp
  next
    case False
    then show ?thesis by (subst roundUpLoop.simps) auto
  qed
qed

lemma roundUpLoop_mono: "i \<le> j \<Longrightarrow> roundUpLoop r i \<le> roundUpLoop r j"
proof (induction r i arbitrary: j rule: roundUpLoop.induct)
  case (1 result input)
  show ?case
  proof (cases "result < input \<and> 0 < result")
    case True
    with "1.prems" have T': "result < j \<and> 0 < result" by simp
    from "1.IH" [OF True "1.prems"]
    have "roundUpLoop (2 * result) input \<le> roundUpLoop (2 * result) j" .
    moreover from True have "roundUpLoop result input = roundUpLoop (2 * result) input"
      by (subst roundUpLoop.simps) simp
    moreover from T' have "roundUpLoop result j = roundUpLoop (2 * result) j"
      by (subst roundUpLoop.simps) simp
    ultimately show ?thesis by simp
  next
    case False
    then have "roundUpLoop result input = result" by (subst roundUpLoop.simps) auto
    then show ?thesis by (simp add: roundUpLoop_ge_start)
  qed
qed

lemma RoundUpPowerOfTwo_mono: "i \<le> j \<Longrightarrow> RoundUpPowerOfTwo i \<le> RoundUpPowerOfTwo j"
  by (simp add: RoundUpPowerOfTwo_def roundUpLoop_mono)

lemma delimitedLen_nonneg: "0 \<le> n \<Longrightarrow> 0 \<le> delimitedLen n"
  by (simp add: delimitedLen_def DelimLen_def)

lemma txContribution_nonneg: "0 \<le> ov \<Longrightarrow> 0 \<le> txContribution ov p"
  by (simp add: txContribution_def delimitedLen_nonneg)

lemma txContributions_nonneg: "0 \<le> ov \<Longrightarrow> 0 \<le> (\<Sum>p\<leftarrow>ps. txContribution ov p)"
  by (induction ps) (simp_all add: txContribution_nonneg)

lemma txbytesLoop_append_mono:
  "0 \<le> ov \<Longrightarrow> txbytesLoop ov 0 txs \<le> txbytesLoop ov 0 (txs @ extra)"
  by (simp add: txbytesLoop_sum txContributions_nonneg)

lemma sharesOfTxbytes_mono:
  assumes "t \<le> t'"
  shows "sharesOfTxbytes c t \<le> sharesOfTxbytes c t'"
proof (cases "t \<le> int (FirstCompactShareContentSize c)")
  case True
  then have "sharesOfTxbytes c t = 1" by (simp add: sharesOfTxbytes_def)
  then show ?thesis by (simp add: sharesOfTxbytes_ge1)
next
  case False
  let ?F = "int (FirstCompactShareContentSize c)"
  let ?C = "int (ContinuationCompactShareContentSize c)"
  from False assms have F': "\<not> t' \<le> ?F" by simp
  have "(t - ?F) div ?C \<le> (t' - ?F) div ?C"
  proof (cases "?C = 0")
    case True then show ?thesis by simp
  next
    case False
    then have "0 < ?C" by simp
    with assms show ?thesis by (intro zdiv_mono1) simp_all
  qed
  with False F' show ?thesis by (simp add: sharesOfTxbytes_def go_quot_def)
qed

lemma blobSharesLoop_ge: "acc \<le> blobSharesLoop c acc txs"
proof (induction txs arbitrary: acc)
  case Nil
  show ?case by simp
next
  case (Cons p ps)
  have "acc \<le> acc + int (SparseSharesNeeded c (uint32_of_int (DataUsed (blobTx p))))" by simp
  also have "\<dots> \<le> blobSharesLoop c (acc + int (SparseSharesNeeded c (uint32_of_int (DataUsed (blobTx p))))) ps"
    by (rule Cons.IH)
  finally show ?case using Cons.IH [of acc] by simp
qed

lemma blobSharesLoop_append:
  "blobSharesLoop c acc (txs @ extra) = blobSharesLoop c (blobSharesLoop c acc txs) extra"
  by (induction txs arbitrary: acc) simp_all

lemma blobSharesLoop_append_mono:
  "blobSharesLoop c 0 txs \<le> blobSharesLoop c 0 (txs @ extra)"
  by (simp add: blobSharesLoop_append blobSharesLoop_ge)

lemma clampSquareSize_mono: "x \<le> y \<Longrightarrow> clampSquareSize c x \<le> clampSquareSize c y"
  by (auto simp: clampSquareSize_def Let_def)

lemma clampSquareSize_ge: "DefaultMinSquareSize c \<le> clampSquareSize c x"
  by (auto simp: clampSquareSize_def Let_def)

lemma estimateSquareSize_unfold:
  assumes "maxWrappedTxOverhead c m (of_nat (DefaultMaxSquareSize c)) = Inr ov"
  shows "estimateSquareSize c m minSizeOf txs =
           Inr (if sharesOfTxbytes c (txbytesLoop ov 0 txs) + blobSharesLoop c 0 txs \<le> 1
                then DefaultMinSquareSize c
                else clampSquareSize c (RoundUpPowerOfTwo (minSizeOf
                       (sharesOfTxbytes c (txbytesLoop ov 0 txs) + blobSharesLoop c 0 txs))),
                sharesOfTxbytes c (txbytesLoop ov 0 txs))"
  using assms
  by (simp add: estimateSquareSize_def estimateCompactShares_def clampSquareSize_def Let_def)

lemma ceilSqrtLoop_enough: "27 * t \<le> 20 * int (ceilSqrtLoop k t * ceilSqrtLoop k t)"
proof (induction k t rule: ceilSqrtLoop.induct)
  case (1 k t)
  show ?case
  proof (cases "20 * int (k * k) < 27 * t")
    case True
    with "1.IH" show ?thesis by (subst (1 2) ceilSqrtLoop.simps) simp
  next
    case False
    then show ?thesis by (subst (1 2) ceilSqrtLoop.simps) simp
  qed
qed

lemma ceilSqrtLoop_least:
  "(\<forall>j<k. 20 * int (j * j) < 27 * t) \<Longrightarrow> j < ceilSqrtLoop k t \<Longrightarrow> 20 * int (j * j) < 27 * t"
proof (induction k t rule: ceilSqrtLoop.induct)
  case (1 k t)
  show ?case
  proof (cases "20 * int (k * k) < 27 * t")
    case True
    with "1.prems"(1) have all: "\<forall>j<Suc k. 20 * int (j * j) < 27 * t"
      by (auto simp: less_Suc_eq)
    from True "1.prems"(2) have "j < ceilSqrtLoop (Suc k) t"
      by (subst (asm) ceilSqrtLoop.simps) simp
    with "1.IH" [OF True all] show ?thesis .
  next
    case False
    with "1.prems"(2) have "j < k" by (subst (asm) ceilSqrtLoop.simps) simp
    with "1.prems"(1) show ?thesis by simp
  qed
qed

lemma exactMinSize_mono: "mono exactMinSize"
proof (rule monoI)
  fix t t' :: int
  assume le: "t \<le> t'"
  show "exactMinSize t \<le> exactMinSize t'"
  proof (rule ccontr)
    assume "\<not> exactMinSize t \<le> exactMinSize t'"
    then have "exactMinSize t' < ceilSqrtLoop 0 t" by (simp add: exactMinSize_def)
    then have "20 * int (exactMinSize t' * exactMinSize t') < 27 * t"
      by (intro ceilSqrtLoop_least [of 0]) simp_all
    moreover have "27 * t' \<le> 20 * int (exactMinSize t' * exactMinSize t')"
      unfolding exactMinSize_def by (rule ceilSqrtLoop_enough)
    ultimately show False using le by simp
  qed
qed

lemma sample_extended_compact:
  "estimateCompactShares sampleConsts MarshalIndexWrapper
     (of_nat (DefaultMaxSquareSize sampleConsts)) (sampleTxs @ [sampleBlobTx]) = Inr 2"
  unfolding estimateCompactShares_def sample_overhead
  by (simp add: sampleTxs_def sampleBlobTx_def sharesOfTxbytes_def DelimLen_def uint64_of_int_def
      PutUvarint.simps go_quot_def sampleConsts_def)

lemma sample_extended_blob: "blobSharesLoop sampleConsts 0 (sampleTxs @ [sampleBlobTx]) = 2188"
  by (simp add: sampleTxs_def sampleBlobTx_def SparseSharesNeeded_def sharesNeeded_def
      uint32_of_int_def sampleConsts_def)

lemma sample_extended_minSize: "RoundUpPowerOfTwo (exactMinSize 2190) = 64"
  by code_simp

lemma sample_extended_estimate:
  "estimateSquareSize sampleConsts MarshalIndexWrapper exactMinSize (sampleTxs @ [sampleBlobTx])
     = Inr (64, 2)"
  unfolding estimateSquareSize_def sample_extended_compact
  by (simp add: sample_extended_blob sample_extended_minSize) (simp add: sampleConsts_def)

lemma sample_withinInt64: "withinInt64 sampleConsts 15 (sampleTxs @ [sampleBlobTx])"
  unfolding withinInt64_def sample_extended_blob
  by (simp add: sampleTxs_def sampleBlobTx_def txContribution_def delimitedLen_def DelimLen_def
      uint64_of_int_def PutUvarint.simps sharesOfTxbytes_def go_quot_def sampleConsts_def)

text \<open>
  Claim C8. Appending a transaction, plain or blob-bearing, to a list never decreases the
  square size that \<^verbatim>\<open>estimateSquareSize\<close> returns. This holds for every floating-point step
  that is monotone in the total, as the correctly rounded conversion, product, square
  root and ceiling of the source are, for every serialiser that succeeds with a
  non-negative overhead, and for lists whose totals stay within 64 bits.
\<close>

theorem estimateSquareSize_monotone:
  assumes mono: "mono minSizeOf"
    and ov: "maxWrappedTxOverhead c m (of_nat (DefaultMaxSquareSize c)) = Inr ov"
    and nonneg: "0 \<le> ov"
    and range: "withinInt64 c ov (txs @ [tx])"
  shows "\<exists>squareSize n squareSize' n'.
           estimateSquareSize c m minSizeOf txs = Inr (squareSize, n)
         \<and> estimateSquareSize c m minSizeOf (txs @ [tx]) = Inr (squareSize', n')
         \<and> squareSize \<le> squareSize'"
proof -
  let ?t = "sharesOfTxbytes c (txbytesLoop ov 0 txs) + blobSharesLoop c 0 txs"
  let ?t' = "sharesOfTxbytes c (txbytesLoop ov 0 (txs @ [tx])) + blobSharesLoop c 0 (txs @ [tx])"
  have "sharesOfTxbytes c (txbytesLoop ov 0 txs) \<le> sharesOfTxbytes c (txbytesLoop ov 0 (txs @ [tx]))"
    by (intro sharesOfTxbytes_mono txbytesLoop_append_mono nonneg)
  moreover have "blobSharesLoop c 0 txs \<le> blobSharesLoop c 0 (txs @ [tx])"
    by (rule blobSharesLoop_append_mono)
  ultimately have le: "?t \<le> ?t'" by simp
  have "minSizeOf ?t \<le> minSizeOf ?t'" using mono le by (rule monoD)
  then have "clampSquareSize c (RoundUpPowerOfTwo (minSizeOf ?t))
               \<le> clampSquareSize c (RoundUpPowerOfTwo (minSizeOf ?t'))"
    by (intro clampSquareSize_mono RoundUpPowerOfTwo_mono)
  with le clampSquareSize_ge [of c "RoundUpPowerOfTwo (minSizeOf ?t')"]
  show ?thesis
    unfolding estimateSquareSize_unfold [OF ov] by auto
qed


theorem estimateSquareSize_monotone_witness:
  "mono exactMinSize
   \<and> maxWrappedTxOverhead sampleConsts MarshalIndexWrapper
        (of_nat (DefaultMaxSquareSize sampleConsts)) = Inr 15
   \<and> (0 :: int) \<le> 15
   \<and> withinInt64 sampleConsts 15 (sampleTxs @ [sampleBlobTx])
   \<and> estimateSquareSize sampleConsts MarshalIndexWrapper exactMinSize sampleTxs = Inr (32, 2)
   \<and> estimateSquareSize sampleConsts MarshalIndexWrapper exactMinSize (sampleTxs @ [sampleBlobTx])
       = Inr (64, 2)
   \<and> (\<exists>squareSize n squareSize' n'.
           estimateSquareSize sampleConsts MarshalIndexWrapper exactMinSize sampleTxs
             = Inr (squareSize, n)
         \<and> estimateSquareSize sampleConsts MarshalIndexWrapper exactMinSize
               (sampleTxs @ [sampleBlobTx]) = Inr (squareSize', n')
         \<and> squareSize \<le> squareSize')"
  using estimateSquareSize_monotone
          [OF exactMinSize_mono sample_overhead _ sample_withinInt64]
        exactMinSize_mono sample_overhead sample_withinInt64 sample_estimate
        sample_extended_estimate
  by simp

section \<open>The overhead of the wrapper\<close>

lemma sint_of_nat_small: "n < 2 ^ 63 \<Longrightarrow> sint (of_nat n :: 64 word) = int n"
  by (simp add: sint_uint uint_nat unat_of_nat signed_take_bit_int_eq_self)

lemma unat_of_nat_small: "n < 2 ^ 64 \<Longrightarrow> unat (of_nat n :: 64 word) = n"
  by (simp add: unat_of_nat)

lemma unat_ucast_small: "n < 2 ^ 32 \<Longrightarrow> unat (ucast (of_nat n :: 64 word) :: 32 word) = n"
  by (simp add: unsigned_ucast_eq unat_of_nat take_bit_eq_mod)

lemma length_PutUvarint_mono: "x \<le> y \<Longrightarrow> length (PutUvarint x) \<le> length (PutUvarint y)"
proof (induction x arbitrary: y rule: PutUvarint.induct)
  case (1 x)
  show ?case
  proof (cases "x < 128")
    case True
    then have "length (PutUvarint x) = 1" by (subst PutUvarint.simps) simp
    with length_PutUvarint_pos [of y] show ?thesis by linarith
  next
    case False
    with "1.prems" have y: "\<not> y < 128" by simp
    from "1.prems" have "x div 128 \<le> y div 128" by (rule div_le_mono)
    with "1.IH" False have "length (PutUvarint (x div 128)) \<le> length (PutUvarint (y div 128))"
      by simp
    moreover from False have "length (PutUvarint x) = Suc (length (PutUvarint (x div 128)))"
      by (subst PutUvarint.simps) simp
    moreover from y have "length (PutUvarint y) = Suc (length (PutUvarint (y div 128)))"
      by (subst PutUvarint.simps) simp
    ultimately show ?thesis by simp
  qed
qed

lemma fieldLen_mono: "x \<le> y \<Longrightarrow> fieldLen x \<le> fieldLen y"
  using length_PutUvarint_mono [of x y] by (auto simp: fieldLen_def)

lemma length_PutUvarint_four: "length (PutUvarint (Suc (Suc (Suc (Suc 0))))) = Suc 0"
  by (subst PutUvarint.simps) simp

lemma length_MarshalIndexWrapper:
  "MarshalIndexWrapper idx tx = Inr wtx \<Longrightarrow>
   length wtx = fieldLen (length tx) + length tx + fieldLen (unat idx) + 6"
  by (auto simp: MarshalIndexWrapper_def protoBytesField_def protoVarintField_def fieldLen_def
      length_PutUvarint_four)

lemma maxWrappedTxOverhead_value:
  assumes len: "s * s * ContinuationCompactShareContentSize c < 2 ^ 63"
    and idx: "s * s < 2 ^ 32"
  shows "maxWrappedTxOverhead c MarshalIndexWrapper (of_nat s)
           = Inr (int (fieldLen (s * s * ContinuationCompactShareContentSize c) + fieldLen (s * s) + 6))"
proof -
  let ?C = "ContinuationCompactShareContentSize c"
  let ?L = "s * s * ?C"
  have w: "(of_nat s :: 64 word) * of_nat s * of_nat ?C = of_nat ?L" by simp
  have w2: "(of_nat s :: 64 word) * of_nat s = of_nat (s * s)" by simp
  from len have u: "unat (of_nat ?L :: 64 word) = ?L" by (intro unat_of_nat_small) simp
  from len have si: "sint (of_nat ?L :: 64 word) = int ?L" by (rule sint_of_nat_small)
  from unat_ucast_small [OF idx]
  have ui: "unat (ucast ((of_nat s :: 64 word) * of_nat s) :: 32 word) = s * s" by simp
  obtain wtx where m: "MarshalIndexWrapper (ucast ((of_nat s :: 64 word) * of_nat s)) (replicate ?L 0) = Inr wtx"
    by (simp add: MarshalIndexWrapper_def)
  from length_MarshalIndexWrapper [OF m]
  have "length wtx = fieldLen ?L + ?L + fieldLen (s * s) + 6" by (simp add: ui)
  then have "int (length wtx) - int ?L = int (fieldLen ?L + fieldLen (s * s) + 6)" by simp
  with m show ?thesis
    unfolding maxWrappedTxOverhead_def Let_def w u si by simp
qed

lemma sample_no_overflow:
  "DefaultMaxSquareSize sampleConsts * DefaultMaxSquareSize sampleConsts
     * ContinuationCompactShareContentSize sampleConsts < 2 ^ 63
   \<and> DefaultMaxSquareSize sampleConsts * DefaultMaxSquareSize sampleConsts < 2 ^ 32"
  by (simp add: sampleConsts_def)

lemma sample_overhead_min: "maxWrappedTxOverhead sampleConsts MarshalIndexWrapper 1 = Inr 11"
  by (simp add: maxWrappedTxOverhead_def sampleConsts_def MarshalIndexWrapper_def
      protoBytesField_def protoVarintField_def PutUvarint.simps)

text \<open>
  Claim C7. For every square size between \<^verbatim>\<open>DefaultMinSquareSize\<close> and
  \<^verbatim>\<open>DefaultMaxSquareSize\<close>, \<^verbatim>\<open>maxWrappedTxOverhead\<close> with the protobuf serialiser returns a
  non-negative overhead, and of two such square sizes the larger has the larger or equal
  overhead. The maximum square size is such that the products of the source do not leave
  their 64 and 32 bits.
\<close>

theorem maxWrappedTxOverhead_nonneg_mono:
  assumes len: "DefaultMaxSquareSize c * DefaultMaxSquareSize c
                  * ContinuationCompactShareContentSize c < 2 ^ 63"
    and idx: "DefaultMaxSquareSize c * DefaultMaxSquareSize c < 2 ^ 32"
    and lo: "DefaultMinSquareSize c \<le> s1" and le: "s1 \<le> s2"
    and hi: "s2 \<le> DefaultMaxSquareSize c"
  shows "\<exists>o1 o2.
           maxWrappedTxOverhead c MarshalIndexWrapper (of_nat s1) = Inr o1
         \<and> maxWrappedTxOverhead c MarshalIndexWrapper (of_nat s2) = Inr o2
         \<and> 0 \<le> o1 \<and> o1 \<le> o2"
proof -
  let ?C = "ContinuationCompactShareContentSize c"
  let ?M = "DefaultMaxSquareSize c"
  from le have sq: "s1 * s1 \<le> s2 * s2" by (intro mult_le_mono)
  from hi have sqM: "s2 * s2 \<le> ?M * ?M" by (intro mult_le_mono)
  from sq have sqC: "s1 * s1 * ?C \<le> s2 * s2 * ?C" by (rule mult_le_mono1)
  from sqM have sqMC: "s2 * s2 * ?C \<le> ?M * ?M * ?C" by (rule mult_le_mono1)
  from sqMC len have len2: "s2 * s2 * ?C < 2 ^ 63" by (rule le_less_trans)
  from sqM idx have idx2: "s2 * s2 < 2 ^ 32" by (rule le_less_trans)
  from sqC len2 have len1: "s1 * s1 * ?C < 2 ^ 63" by (rule le_less_trans)
  from sq idx2 have idx1: "s1 * s1 < 2 ^ 32" by (rule le_less_trans)
  have "fieldLen (s1 * s1 * ?C) \<le> fieldLen (s2 * s2 * ?C)" using sqC by (rule fieldLen_mono)
  moreover have "fieldLen (s1 * s1) \<le> fieldLen (s2 * s2)" using sq by (rule fieldLen_mono)
  ultimately show ?thesis
    unfolding maxWrappedTxOverhead_value [OF len1 idx1] maxWrappedTxOverhead_value [OF len2 idx2]
    by simp
qed

theorem maxWrappedTxOverhead_nonneg_mono_witness:
  "DefaultMaxSquareSize sampleConsts * DefaultMaxSquareSize sampleConsts
     * ContinuationCompactShareContentSize sampleConsts < 2 ^ 63
   \<and> DefaultMaxSquareSize sampleConsts * DefaultMaxSquareSize sampleConsts < 2 ^ 32
   \<and> DefaultMinSquareSize sampleConsts \<le> 1 \<and> (1 :: nat) \<le> 128
   \<and> 128 \<le> DefaultMaxSquareSize sampleConsts
   \<and> maxWrappedTxOverhead sampleConsts MarshalIndexWrapper 1 = Inr 11
   \<and> maxWrappedTxOverhead sampleConsts MarshalIndexWrapper 128 = Inr 15
   \<and> (\<exists>o1 o2.
           maxWrappedTxOverhead sampleConsts MarshalIndexWrapper (of_nat 1) = Inr o1
         \<and> maxWrappedTxOverhead sampleConsts MarshalIndexWrapper (of_nat 128) = Inr o2
         \<and> 0 \<le> o1 \<and> o1 \<le> o2)"
proof -
  have lo: "DefaultMinSquareSize sampleConsts \<le> 1" by (simp add: sampleConsts_def)
  have le: "(1 :: nat) \<le> 128" by simp
  have hi: "128 \<le> DefaultMaxSquareSize sampleConsts" by (simp add: sampleConsts_def)
  have hi128: "maxWrappedTxOverhead sampleConsts MarshalIndexWrapper 128 = Inr 15"
    using sample_overhead by (simp add: sampleConsts_def)
  from maxWrappedTxOverhead_nonneg_mono
         [OF conjunct1 [OF sample_no_overflow] conjunct2 [OF sample_no_overflow] lo le hi]
       sample_no_overflow lo le hi sample_overhead_min hi128
  show ?thesis by blast
qed

section \<open>The compact share splitter\<close>

lemma splitterInv_new: "splitterInv c (NewCompactShareSplitter c ns v) []"
  by (simp add: splitterInv_def NewCompactShareSplitter_def)

lemma closePending_inv:
  assumes inv: "splitterInv c css w" and full: "remaining css = 0"
  shows "splitterInv c (closePending c css) w"
proof -
  let ?F = "FirstCompactShareContentSize c"
  let ?C = "ContinuationCompactShareContentSize c"
  let ?cl = "closedShares css"
  from inv full have p: "length (pendingShare css) = (if ?cl = [] then ?F else ?C)"
    by (simp add: splitterInv_def)
  have cl: "closedShares (closePending c css) = ?cl @ [pendingShare css]"
    using full by (simp add: closePending_def)
  have a: "concat (closedShares (closePending c css)) @ pendingShare (closePending c css) = w"
    using inv by (simp add: cl) (simp add: closePending_def splitterInv_def)
  have b: "bytesWritten (closePending c css) = length w"
    using inv by (simp add: closePending_def splitterInv_def)
  have c1: "\<forall>i < length (closedShares (closePending c css)).
            length (closedShares (closePending c css) ! i) = (if i = 0 then ?F else ?C)"
  proof (intro allI impI)
    fix i assume "i < length (closedShares (closePending c css))"
    then have i: "i < length ?cl \<or> i = length ?cl" by (auto simp: cl)
    from inv have old: "\<forall>i < length ?cl. length (?cl ! i) = (if i = 0 then ?F else ?C)"
      by (simp add: splitterInv_def)
    from i show "length (closedShares (closePending c css) ! i) = (if i = 0 then ?F else ?C)"
    proof
      assume "i < length ?cl"
      with old show ?thesis by (simp add: cl nth_append)
    next
      assume "i = length ?cl"
      with p show ?thesis by (simp add: cl nth_append)
    qed
  qed
  have c2: "length (concat (closedShares (closePending c css)))
          = (if closedShares (closePending c css) = [] then 0
             else ?F + (length (closedShares (closePending c css)) - 1) * ?C)"
  proof (cases "?cl = []")
    case True
    with p show ?thesis by (simp add: cl)
  next
    case False
    then obtain m where m: "length ?cl = Suc m" by (cases ?cl) auto
    from inv False have "length (concat ?cl) = ?F + (length ?cl - 1) * ?C"
      by (simp add: splitterInv_def)
    with p False show ?thesis by (simp add: cl m)
  qed
  have d: "length (pendingShare (closePending c css)) + remaining (closePending c css)
          = (if closedShares (closePending c css) = [] then ?F else ?C)"
    by (simp add: cl) (simp add: closePending_def)
  from a b c1 c2 d show ?thesis unfolding splitterInv_def by (intro conjI)
qed

lemma closePending_fields:
  "namespace (closePending c css) = namespace css
   \<and> shareVersion (closePending c css) = shareVersion css
   \<and> remaining (closePending c css) = ContinuationCompactShareContentSize c"
  by (simp add: closePending_def)

lemma appendChunk_inv:
  assumes inv: "splitterInv c css w" and n: "n \<le> remaining css" and len: "length chunk = n"
  shows "splitterInv c
           (css \<lparr> pendingShare := pendingShare css @ chunk,
                  remaining := remaining css - n,
                  bytesWritten := bytesWritten css + n \<rparr>) (w @ chunk)"
  using assms by (auto simp: splitterInv_def)

lemma writeBytes_inv:
  assumes "splitterInv c css w" and "0 < ContinuationCompactShareContentSize c"
  shows "\<exists>css'. writeBytes c css rawData = Inr css'
           \<and> splitterInv c css' (w @ rawData)
           \<and> namespace css' = namespace css
           \<and> shareVersion css' = shareVersion css
           \<and> (rawData \<noteq> [] \<or> pendingShare css \<noteq> [] \<longrightarrow> pendingShare css' \<noteq> [])"
  using assms
proof (induction c css rawData arbitrary: w rule: writeBytes.induct)
  case (1 c css rawData)
  show ?case
  proof (cases "rawData = []")
    case True
    with "1.prems" show ?thesis by (subst writeBytes.simps) simp
  next
    case False
    note nonempty = False
    show ?thesis
    proof (cases "remaining css = 0")
      case True
      from "1.prems" True have inv': "splitterInv c (closePending c css) w"
        by (simp add: closePending_inv)
      from "1.prems"(2) have C: "ContinuationCompactShareContentSize c \<noteq> 0" by simp
      from "1.IH"(1) [OF nonempty True C inv' "1.prems"(2)]
      obtain css' where r: "writeBytes c (closePending c css) rawData = Inr css'"
        and i: "splitterInv c css' (w @ rawData)"
        and ns: "namespace css' = namespace (closePending c css)"
        and v: "shareVersion css' = shareVersion (closePending c css)"
        and p: "rawData \<noteq> [] \<or> pendingShare (closePending c css) \<noteq> [] \<longrightarrow> pendingShare css' \<noteq> []"
        by blast
      from nonempty True C r have "writeBytes c css rawData = Inr css'"
        by (subst writeBytes.simps) simp
      with i ns v p nonempty show ?thesis by (simp add: closePending_fields)
    next
      case False
      let ?n = "min (remaining css) (length rawData)"
      let ?css1 = "css \<lparr> pendingShare := pendingShare css @ take ?n rawData,
                         remaining := remaining css - ?n,
                         bytesWritten := bytesWritten css + ?n \<rparr>"
      from False nonempty have npos: "0 < ?n" by simp
      have inv1: "splitterInv c ?css1 (w @ take ?n rawData)"
        by (rule appendChunk_inv [OF "1.prems"(1)]) simp_all
      from "1.IH"(2) [OF nonempty False refl inv1 "1.prems"(2)]
      obtain css' where r: "writeBytes c ?css1 (drop ?n rawData) = Inr css'"
        and i: "splitterInv c css' ((w @ take ?n rawData) @ drop ?n rawData)"
        and ns: "namespace css' = namespace ?css1"
        and v: "shareVersion css' = shareVersion ?css1"
        and p: "drop ?n rawData \<noteq> [] \<or> pendingShare ?css1 \<noteq> [] \<longrightarrow> pendingShare css' \<noteq> []"
        by blast
      from nonempty False r have w: "writeBytes c css rawData = Inr css'"
        by (subst writeBytes.simps) (simp add: Let_def)
      from npos nonempty have "take ?n rawData \<noteq> []" by (cases rawData) auto
      then have "pendingShare ?css1 \<noteq> []" by simp
      with p have "pendingShare css' \<noteq> []" by blast
      with w i ns v show ?thesis by simp
    qed
  qed
qed

lemma WriteTx_inv:
  assumes inv: "splitterInv c css w"
    and C: "0 < ContinuationCompactShareContentSize c"
    and fit: "length (PutUvarint (length tx)) \<le> remaining css
              \<or> (remaining css = 0
                  \<and> length (PutUvarint (length tx)) \<le> ContinuationCompactShareContentSize c)"
  shows "\<exists>css'. WriteTx c css tx = Inr css'
           \<and> splitterInv c css' (w @ PutUvarint (length tx) @ tx)
           \<and> namespace css' = namespace css
           \<and> shareVersion css' = shareVersion css
           \<and> pendingShare css' \<noteq> []"
proof -
  let ?d = "PutUvarint (length tx)"
  have dne: "?d @ tx \<noteq> []" using length_PutUvarint_pos [of "length tx"] by auto
  show ?thesis
  proof (cases "length ?d \<le> remaining css")
    case True
    then have "WriteTx c css tx = writeBytes c css (?d @ tx)"
      by (simp add: WriteTx_def Let_def)
    with writeBytes_inv [OF inv C, of "?d @ tx"] dne show ?thesis by auto
  next
    case False
    with fit have full: "remaining css = 0"
      and dC: "length ?d \<le> ContinuationCompactShareContentSize c" by auto
    from inv full have inv': "splitterInv c (closePending c css) w" by (rule closePending_inv)
    from False dC have "WriteTx c css tx = writeBytes c (closePending c css) (?d @ tx)"
      by (simp add: WriteTx_def Let_def closePending_fields)
    with writeBytes_inv [OF inv' C, of "?d @ tx"] dne show ?thesis
      by (auto simp: closePending_fields)
  qed
qed

lemma splitterInv_length:
  assumes inv: "splitterInv c css w"
  shows "length w = length (concat (closedShares css)) + length (pendingShare css)"
proof -
  from inv have "concat (closedShares css) @ pendingShare css = w" by (simp add: splitterInv_def)
  then have "length (concat (closedShares css) @ pendingShare css) = length w" by simp
  then show ?thesis by simp
qed

lemma remaining_roomAt:
  assumes inv: "splitterInv c css w"
    and pend: "w \<noteq> [] \<longrightarrow> pendingShare css \<noteq> []"
    and F: "0 < FirstCompactShareContentSize c"
  shows "remaining css = roomAt c (length w)"
proof (cases "closedShares css = []")
  case True
  with inv splitterInv_length [OF inv] have "length w = length (pendingShare css)"
    and "length (pendingShare css) + remaining css = FirstCompactShareContentSize c"
    by (auto simp: splitterInv_def)
  then show ?thesis by (simp add: roomAt_def)
next
  case False
  let ?F = "FirstCompactShareContentSize c"
  let ?C = "ContinuationCompactShareContentSize c"
  let ?p = "length (pendingShare css)"
  from False obtain m where m: "length (closedShares css) = Suc m"
    by (cases "closedShares css") auto
  from inv False m splitterInv_length [OF inv] have lw: "length w = ?F + m * ?C + ?p"
    by (simp add: splitterInv_def)
  from inv False have pr: "?p + remaining css = ?C" by (simp add: splitterInv_def)
  from lw F have "w \<noteq> []" by auto
  with pend have "0 < ?p" by simp
  then obtain q where q: "?p = Suc q" by (cases ?p) auto
  from pr q have qC: "q < ?C" by simp
  have "length w - ?F - 1 = q + m * ?C" using lw q by simp
  moreover have "(q + m * ?C) mod ?C = q" using qC by simp
  moreover have "\<not> length w \<le> ?F" using lw q by simp
  ultimately have "roomAt c (length w) = ?C - (q + 1)" by (simp add: roomAt_def)
  with pr q show ?thesis by simp
qed

lemma shares_count:
  assumes inv: "splitterInv c css w"
    and ne: "w \<noteq> []" and pend: "pendingShare css \<noteq> []"
  shows "CompactSharesNeeded c (length w) = length (closedShares css) + 1"
proof (cases "closedShares css = []")
  case True
  with inv splitterInv_length [OF inv] have "length w = length (pendingShare css)"
    and "length (pendingShare css) + remaining css = FirstCompactShareContentSize c"
    by (auto simp: splitterInv_def)
  with ne True show ?thesis by (auto simp: CompactSharesNeeded_def sharesNeeded_def)
next
  case False
  let ?F = "FirstCompactShareContentSize c"
  let ?C = "ContinuationCompactShareContentSize c"
  let ?p = "length (pendingShare css)"
  from False obtain m where m: "length (closedShares css) = Suc m"
    by (cases "closedShares css") auto
  from inv False m splitterInv_length [OF inv] have lw: "length w = ?F + m * ?C + ?p"
    by (simp add: splitterInv_def)
  from inv False have pr: "?p + remaining css = ?C" by (simp add: splitterInv_def)
  from pend obtain q where q: "?p = Suc q" by (cases "pendingShare css") auto
  from pr q have qC: "q < ?C" by simp
  then have Cpos: "0 < ?C" by simp
  have "length w - ?F + ?C - 1 = q + (m + 1) * ?C" using lw q by simp
  moreover have "(q + (m + 1) * ?C) div ?C = m + 1 + q div ?C"
    using Cpos by (intro div_mult_self1) simp
  moreover have "q div ?C = 0" using qC by simp
  ultimately have "(length w - ?F + ?C - 1) div ?C = m + 1" by simp
  moreover have "\<not> length w \<le> ?F" using lw q by simp
  moreover have "length w \<noteq> 0" using ne by simp
  ultimately show ?thesis unfolding CompactSharesNeeded_def sharesNeeded_def m by simp
qed

lemma delimitedTxs_Cons:
  "delimitedTxs (tx # txs) = PutUvarint (length tx) @ tx @ delimitedTxs txs"
  by (simp add: delimitedTxs_def)

lemma delimitedTxs_nonempty: "txs \<noteq> [] \<Longrightarrow> delimitedTxs txs \<noteq> []"
  using length_PutUvarint_pos by (cases txs) (auto simp: delimitedTxs_def)

lemma writeAll_inv:
  assumes "splitterInv c css w"
    and "w \<noteq> [] \<longrightarrow> pendingShare css \<noteq> []"
    and "0 < FirstCompactShareContentSize c"
    and "0 < ContinuationCompactShareContentSize c"
    and "delimitersFit c (length w) txs"
  shows "\<exists>css'. writeAll c css txs = Inr css'
           \<and> splitterInv c css' (w @ delimitedTxs txs)
           \<and> namespace css' = namespace css
           \<and> shareVersion css' = shareVersion css
           \<and> (w @ delimitedTxs txs \<noteq> [] \<longrightarrow> pendingShare css' \<noteq> [])"
  using assms
proof (induction txs arbitrary: css w)
  case Nil
  then show ?case by (simp add: delimitedTxs_def)
next
  case (Cons tx txs)
  let ?d = "PutUvarint (length tx)"
  from Cons.prems(1,2,3) have room: "remaining css = roomAt c (length w)"
    by (rule remaining_roomAt)
  from Cons.prems(5) room
  have fit: "length ?d \<le> remaining css
             \<or> (remaining css = 0 \<and> length ?d \<le> ContinuationCompactShareContentSize c)"
    by simp
  from Cons.prems(5) have rest: "delimitersFit c (length (w @ ?d @ tx)) txs"
    by (simp add: add.assoc)
  from WriteTx_inv [OF Cons.prems(1) Cons.prems(4) fit]
  obtain css1 where w1: "WriteTx c css tx = Inr css1"
    and i1: "splitterInv c css1 (w @ ?d @ tx)"
    and ns1: "namespace css1 = namespace css"
    and v1: "shareVersion css1 = shareVersion css"
    and p1: "pendingShare css1 \<noteq> []" by blast
  from p1 have p1': "w @ ?d @ tx \<noteq> [] \<longrightarrow> pendingShare css1 \<noteq> []" by simp
  from Cons.IH [OF i1 p1' Cons.prems(3) Cons.prems(4) rest]
  obtain css' where w2: "writeAll c css1 txs = Inr css'"
    and i2: "splitterInv c css' ((w @ ?d @ tx) @ delimitedTxs txs)"
    and ns2: "namespace css' = namespace css1"
    and v2: "shareVersion css' = shareVersion css1"
    and p2: "(w @ ?d @ tx) @ delimitedTxs txs \<noteq> [] \<longrightarrow> pendingShare css' \<noteq> []" by blast
  from w1 w2 have "writeAll c css (tx # txs) = Inr css'" by simp
  with i2 ns1 ns2 v1 v2 p2 show ?case by (simp add: delimitedTxs_Cons)
qed

lemma padShares_all:
  "\<forall>raw \<in> set raws. length raw \<le> ShareSize c \<Longrightarrow>
   padShares c raws = Inr (map (zeroPadded c) raws)"
  by (induction raws) (simp_all add: padShare_def zeroPadded_def)

lemma continuation_contents:
  assumes ns: "length ns = NamespaceSize c"
  shows "map (contentBytes c) (map (zeroPadded c) (map (\<lambda>content. ns @ 0 # content) ks))
       = map (\<lambda>k. k @ replicate (ShareSize c - (NamespaceSize c + 1 + length k)) 0) ks"
  using ns by (induction ks) (simp_all add: zeroPadded_def contentBytes_continuation)

lemma full_contents:
  assumes full: "\<forall>k \<in> set ks. NamespaceSize c + 1 + length k = ShareSize c"
  shows "concat (map (\<lambda>k. k @ replicate (ShareSize c - (NamespaceSize c + 1 + length k)) 0) ks)
       = concat ks"
  using full by (induction ks) simp_all

lemma Export_shares:
  assumes inv: "splitterInv c css w"
    and ne: "w \<noteq> []"
    and layout: "compactLayoutOK c"
    and ns: "namespace css = TxNamespaceID c"
    and v: "shareVersion css = ShareVersionZero"
  shows "\<exists>first rest padding.
           Export c css 0 = Inr (first # rest, Suc (length rest))
         \<and> length rest = length (closedShares css)
         \<and> isSequenceStart c first
         \<and> shareSequenceLen c first = Uint32 (PutUint32 (length w))
         \<and> concat (map (contentBytes c) (first # rest)) = w @ padding"
proof -
  let ?F = "FirstCompactShareContentSize c"
  let ?C = "ContinuationCompactShareContentSize c"
  let ?N = "NamespaceSize c"
  let ?ns = "TxNamespaceID c"
  let ?hdr = "\<lambda>k. ?ns @ 1 # PutUint32 (length w) @ k"
  let ?cont = "\<lambda>content. ?ns @ 0 # content"
  from layout have lF: "?N + 1 + 4 + ?F = ShareSize c" and lC: "?N + 1 + ?C = ShareSize c"
    and lns: "length ?ns = ?N"
    by (simp_all add: compactLayoutOK_def SequenceLenBytes_def)
  from inv have bw: "bytesWritten css = length w" and cat: "concat (closedShares css) @ pendingShare css = w"
    and lens: "\<forall>i < length (closedShares css).
            length (closedShares css ! i) = (if i = 0 then ?F else ?C)"
    and pr: "length (pendingShare css) + remaining css = (if closedShares css = [] then ?F else ?C)"
    by (simp_all add: splitterInv_def)
  from ne bw have nz: "bytesWritten css \<noteq> 0" by simp
  have start: "\<And>k. isSequenceStart c (zeroPadded c (?hdr k))"
    using lns by (simp add: zeroPadded_def isSequenceStart_header)
  have slen: "\<And>k. shareSequenceLen c (zeroPadded c (?hdr k)) = Uint32 (PutUint32 (length w))"
    using lns by (simp add: zeroPadded_def shareSequenceLen_header length_PutUint32)
  have scont: "\<And>k. contentBytes c (zeroPadded c (?hdr k))
                  = k @ replicate (ShareSize c - (?N + 5 + length k)) 0"
    using lns contentBytes_start [of ?ns c "PutUint32 (length w)"]
    by (simp add: zeroPadded_def length_PutUint32 add.assoc)
  show ?thesis
  proof (cases "closedShares css")
    case Nil
    with pr have pl: "length (pendingShare css) \<le> ?F" by simp
    with lF lns have ok: "\<forall>raw \<in> set [?hdr (pendingShare css)]. length raw \<le> ShareSize c"
      by (simp add: length_PutUint32)
    have "Export c css 0 = Inr ([zeroPadded c (?hdr (pendingShare css))], Suc 0)"
      using nz Nil padShares_all [OF ok]
      by (simp add: Export_def v ns bw NewInfoByte_start NewInfoByte_continuation
          del: padShares.simps)
    moreover have "concat (map (contentBytes c) [zeroPadded c (?hdr (pendingShare css))])
                     = w @ replicate (ShareSize c - (?N + 5 + length (pendingShare css))) 0"
      using cat Nil by (simp add: scont)
    ultimately show ?thesis using Nil start slen
      by (intro exI [of _ "zeroPadded c (?hdr (pendingShare css))"] exI [of _ "[]"]
            exI [of _ "replicate (ShareSize c - (?N + 5 + length (pendingShare css))) 0"],
          simp)
  next
    case (Cons k0 ks)
    from lens Cons have k0: "length k0 = ?F" by auto
    have ksC: "\<forall>k \<in> set ks. length k = ?C"
    proof
      fix k assume "k \<in> set ks"
      then obtain j where j: "j < length ks" and kj: "ks ! j = k" by (auto simp: in_set_conv_nth)
      from j Cons have "Suc j < length (closedShares css)" by simp
      with lens have "length (closedShares css ! Suc j) = ?C" by auto
      with Cons kj show "length k = ?C" by simp
    qed
    from pr Cons have pl: "length (pendingShare css) \<le> ?C" by simp
    let ?rest = "ks @ [pendingShare css]"
    let ?raws = "?hdr k0 # map ?cont ?rest"
    have ok: "\<forall>raw \<in> set ?raws. length raw \<le> ShareSize c"
      using k0 ksC pl lF lC lns by (auto simp: length_PutUint32)
    have ex: "Export c css 0 = Inr (map (zeroPadded c) ?raws, Suc (length ?rest))"
      using nz Cons padShares_all [OF ok]
      by (simp add: Export_def v ns bw NewInfoByte_start NewInfoByte_continuation
          del: padShares.simps)
    have full: "\<forall>k \<in> set ks. ?N + 1 + length k = ShareSize c" using ksC lC by simp
    have c0: "contentBytes c (zeroPadded c (?hdr k0)) = k0"
      using k0 lF by (simp add: scont)
    have crest: "concat (map (contentBytes c) (map (zeroPadded c) (map ?cont ?rest)))
                   = concat ks @ pendingShare css
                     @ replicate (ShareSize c - (?N + 1 + length (pendingShare css))) 0"
      unfolding continuation_contents [OF lns] using full_contents [OF full] by simp
    have "concat (map (contentBytes c) (map (zeroPadded c) ?raws))
            = w @ replicate (ShareSize c - (?N + 1 + length (pendingShare css))) 0"
      using cat Cons c0 crest by simp
    with ex Cons start slen show ?thesis
      by (intro exI [of _ "zeroPadded c (?hdr k0)"]
            exI [of _ "map (zeroPadded c) (map ?cont ?rest)"]
            exI [of _ "replicate (ShareSize c - (?N + 1 + length (pendingShare css))) 0"],
          simp)
  qed
qed

lemma sample_compactLayoutOK: "compactLayoutOK sampleConsts"
  by (simp add: compactLayoutOK_def sampleConsts_def SequenceLenBytes_def)

lemma fiveTxs_fit: "delimitersFit sampleConsts 0 fiveTxs"
  by (simp add: fiveTxs_def roomAt_def PutUvarint.simps sampleConsts_def)

lemma fiveTxs_small: "length (delimitedTxs fiveTxs) < 2 ^ 32"
  by (simp add: fiveTxs_def delimitedTxs_def PutUvarint.simps)

lemma paddedTxs_not_fit: "\<not> delimitersFit sampleConsts 0 paddedTxs"
  by (simp add: paddedTxs_def roomAt_def PutUvarint.simps sampleConsts_def)

lemma generate_shape:
  assumes layout: "compactLayoutOK c"
    and nonempty: "txs \<noteq> []"
    and fit: "delimitersFit c 0 txs"
  shows "\<exists>first rest padding.
           generateValidShareSequence c txs
             = Inr \<lparr> NamespaceID = TxNamespaceID c, Shares = first # rest \<rparr>
         \<and> isSequenceStart c first
         \<and> shareSequenceLen c first = Uint32 (PutUint32 (length (delimitedTxs txs)))
         \<and> concat (map (contentBytes c) (first # rest)) = delimitedTxs txs @ padding
         \<and> CompactSharesNeeded c (length (delimitedTxs txs)) = length (first # rest)"
proof -
  let ?w = "delimitedTxs txs"
  let ?new = "NewCompactShareSplitter c (TxNamespaceID c) ShareVersionZero"
  from layout have F: "0 < FirstCompactShareContentSize c"
    and C: "0 < ContinuationCompactShareContentSize c"
    by (auto simp: compactLayoutOK_def SequenceLenBytes_def)
  have inv0: "splitterInv c ?new []" by (rule splitterInv_new)
  from writeAll_inv [OF inv0 _ F C, of txs] fit
  obtain css where wa: "writeAll c ?new txs = Inr css"
    and inv: "splitterInv c css ?w"
    and ns: "namespace css = TxNamespaceID c"
    and v: "shareVersion css = ShareVersionZero"
    and pend: "?w \<noteq> [] \<longrightarrow> pendingShare css \<noteq> []"
    by (auto simp: NewCompactShareSplitter_def)
  from nonempty have ne: "?w \<noteq> []" by (rule delimitedTxs_nonempty)
  with pend have pne: "pendingShare css \<noteq> []" by simp
  from Export_shares [OF inv ne layout ns v]
  obtain first rest padding where ex: "Export c css 0 = Inr (first # rest, Suc (length rest))"
    and lr: "length rest = length (closedShares css)"
    and st: "isSequenceStart c first"
    and sl: "shareSequenceLen c first = Uint32 (PutUint32 (length ?w))"
    and cb: "concat (map (contentBytes c) (first # rest)) = ?w @ padding"
    by blast
  have gen: "generateValidShareSequence c txs
               = Inr \<lparr> NamespaceID = TxNamespaceID c, Shares = first # rest \<rparr>"
    by (simp add: generateValidShareSequence_def wa ex)
  have count: "CompactSharesNeeded c (length ?w) = length (first # rest)"
    using shares_count [OF inv ne pne] lr by simp
  from gen st sl cb count show ?thesis by blast
qed

text \<open>
  The condition on the delimiters is needed: the first of these two transactions leaves
  one byte of room in the first share, the two-byte delimiter of the second does not fit,
  the splitter zero-pads the share, and the padding byte is reconstructed as payload.
\<close>

lemma paddedTxs_written:
  "writeAll sampleConsts (NewCompactShareSplitter sampleConsts (TxNamespaceID sampleConsts) ShareVersionZero) paddedTxs
   = Inr \<lparr> namespace = TxNamespaceID sampleConsts, shareVersion = ShareVersionZero,
           closedShares = [[240, 3] @ replicate 496 1 @ [0]],
           pendingShare = [200, 1] @ replicate 200 2,
           remaining = 301, bytesWritten = 700 \<rparr>"
  by (simp add: paddedTxs_def NewCompactShareSplitter_def WriteTx_def PutUvarint.simps
      writeBytes.simps closePending_def Let_def sampleConsts_def)

lemma paddedTxs_exported: "generateValidShareSequence sampleConsts paddedTxs = Inr paddedSequence"
  unfolding generateValidShareSequence_def paddedTxs_written
  by (simp add: Export_def NewInfoByte_def ShareVersionZero_def PutUint32_def padShare_def
      paddedSequence_def sampleConsts_def)

lemma paddedSequence_raw:
  "RawData sampleConsts paddedSequence
     = Inr ([240, 3] @ replicate 496 1 @ [0] @ [200, 1] @ replicate 199 2)"
  by (simp add: RawData_def paddedSequence_def isSequenceStart_def infoByteOf_def
      shareSequenceLen_def Uint32_def SequenceLenBytes_def contentBytes_def sampleConsts_def)

lemma paddedTxs_delimited:
  "delimitedTxs paddedTxs = [240, 3] @ replicate 496 1 @ [200, 1] @ replicate 200 2"
  by (simp add: delimitedTxs_def paddedTxs_def PutUvarint.simps)

lemma paddedTxs_not_restored:
  "RawData sampleConsts paddedSequence \<noteq> Inr (delimitedTxs paddedTxs)"
proof
  assume "RawData sampleConsts paddedSequence = Inr (delimitedTxs paddedTxs)"
  then have eq: "[240, 3] @ replicate 496 1 @ [0] @ [200, 1] @ replicate 199 2
             = [240, 3] @ replicate 496 (1 :: 8 word) @ [200, 1] @ replicate 200 2"
    by (simp only: paddedSequence_raw paddedTxs_delimited sum.inject)
  have "([240, 3] @ replicate 496 1 @ [0] @ [200, 1] @ replicate 199 (2 :: 8 word)) ! 498 = 0"
    by (simp add: nth_append)
  moreover have "([240, 3] @ replicate 496 (1 :: 8 word) @ [200, 1] @ replicate 200 2) ! 498 = 200"
    by (simp add: nth_append)
  ultimately show False using eq by simp
qed

text \<open>
  The bound on the number of bytes is needed as well: the four bytes of the sequence
  length of a transaction of \<open>2 ^ 32\<close> bytes, which has a delimiter of five bytes, hold
  the number 5, and the reconstruction returns five bytes.
\<close>

lemma hugeTx_delimited: "length (delimitedTxs [hugeTx]) = 4294967301"
  by (simp add: delimitedTxs_def hugeTx_def PutUvarint.simps)

lemma hugeTx_fit: "delimitersFit sampleConsts 0 [hugeTx]"
  by (simp add: hugeTx_def roomAt_def PutUvarint.simps sampleConsts_def)

lemma hugeTx_not_restored:
  "\<exists>s. generateValidShareSequence sampleConsts [hugeTx] = Inr s
       \<and> RawData sampleConsts s \<noteq> Inr (delimitedTxs [hugeTx])"
proof -
  let ?w = "delimitedTxs [hugeTx]"
  have ne: "[hugeTx] \<noteq> []" by simp
  from generate_shape [OF sample_compactLayoutOK ne hugeTx_fit]
  obtain first rest padding
    where gen: "generateValidShareSequence sampleConsts [hugeTx]
               = Inr \<lparr> NamespaceID = TxNamespaceID sampleConsts, Shares = first # rest \<rparr>"
      and st: "isSequenceStart sampleConsts first"
      and sl: "shareSequenceLen sampleConsts first = Uint32 (PutUint32 (length ?w))"
      and cb: "concat (map (contentBytes sampleConsts) (first # rest)) = ?w @ padding"
    by blast
  have "Uint32 (PutUint32 (length ?w)) = 5"
    unfolding hugeTx_delimited by (simp add: Uint32_def PutUint32_def)
  with sl have sl5: "shareSequenceLen sampleConsts first = 5" by simp
  have r: "RawData sampleConsts \<lparr> NamespaceID = TxNamespaceID sampleConsts, Shares = first # rest \<rparr>
          = Inr (take 5 (?w @ padding))"
    using st sl5 cb hugeTx_delimited by (simp add: RawData_def Let_def)
  have neq: "length (take 5 (?w @ padding)) \<noteq> length ?w"
    using hugeTx_delimited by simp
  have "RawData sampleConsts
          \<lparr> NamespaceID = TxNamespaceID sampleConsts, Shares = first # rest \<rparr> \<noteq> Inr ?w"
  proof
    assume "RawData sampleConsts
              \<lparr> NamespaceID = TxNamespaceID sampleConsts, Shares = first # rest \<rparr> = Inr ?w"
    with r have "take 5 (?w @ padding) = ?w" by (simp only: sum.inject)
    then have "length (take 5 (?w @ padding)) = length ?w" by (rule arg_cong)
    with neq show False by (rule notE)
  qed
  with gen show ?thesis by blast
qed

text \<open>
  Claim C1, as stated, fails for the empty list of transactions: the splitter exports no
  share, and both the reconstruction and \<^verbatim>\<open>validSequenceLen\<close> fail on a sequence without
  shares.
\<close>

theorem compact_split_roundtrip_empty_counterexample:
  "generateValidShareSequence sampleConsts []
     = Inr \<lparr> NamespaceID = TxNamespaceID sampleConsts, Shares = [] \<rparr>
   \<and> RawData sampleConsts \<lparr> NamespaceID = TxNamespaceID sampleConsts, Shares = [] \<rparr>
       = Inl EmptySequence
   \<and> validSequenceLen sampleConsts \<lparr> NamespaceID = TxNamespaceID sampleConsts, Shares = [] \<rparr>
       = Inl EmptySequence"
  by (simp add: generateValidShareSequence_def NewCompactShareSplitter_def Export_def
      RawData_def validSequenceLen_def)

text \<open>
  Claim C1, amended. For every non-empty list of transactions whose delimited bytes are
  fewer than \<open>2 ^ 32\<close>, the range of the four-byte sequence length, and in which no
  delimiter meets a share with some room left but less than the delimiter needs, on
  constants whose compact capacities fill what the header leaves of a share: writing the
  transactions in order to a splitter of the transaction namespace and exporting once
  succeeds, reconstructing the exported sequence yields exactly the concatenation of the
  delimiters and contents, and \<^verbatim>\<open>validSequenceLen\<close> succeeds on it.
\<close>

theorem compact_split_roundtrip:
  assumes layout: "compactLayoutOK c"
    and nonempty: "txs \<noteq> []"
    and fit: "delimitersFit c 0 txs"
    and small: "length (delimitedTxs txs) < 2 ^ 32"
  shows "\<exists>s. generateValidShareSequence c txs = Inr s
           \<and> RawData c s = Inr (delimitedTxs txs)
           \<and> validSequenceLen c s = Inr ()"
proof -
  let ?w = "delimitedTxs txs"
  from generate_shape [OF layout nonempty fit]
  obtain first rest padding
    where gen: "generateValidShareSequence c txs
               = Inr \<lparr> NamespaceID = TxNamespaceID c, Shares = first # rest \<rparr>"
      and st: "isSequenceStart c first"
      and sl: "shareSequenceLen c first = Uint32 (PutUint32 (length ?w))"
      and cb: "concat (map (contentBytes c) (first # rest)) = ?w @ padding"
      and count: "CompactSharesNeeded c (length ?w) = length (first # rest)"
    by blast
  let ?s = "\<lparr> NamespaceID = TxNamespaceID c, Shares = first # rest \<rparr>"
  from sl small have sl': "shareSequenceLen c first = length ?w" by (simp add: Uint32_PutUint32)
  have raw: "RawData c ?s = Inr ?w"
    using st sl' cb by (simp add: RawData_def Let_def)
  have valid: "validSequenceLen c ?s = Inr ()"
    using st sl' count by (simp add: validSequenceLen_def numberOfSharesNeeded_def)
  from gen raw valid show ?thesis by blast
qed

theorem compact_split_roundtrip_witness:
  "compactLayoutOK sampleConsts
   \<and> fiveTxs \<noteq> []
   \<and> delimitersFit sampleConsts 0 fiveTxs
   \<and> length (delimitedTxs fiveTxs) < 2 ^ 32
   \<and> (\<exists>s. generateValidShareSequence sampleConsts fiveTxs = Inr s
           \<and> RawData sampleConsts s = Inr (delimitedTxs fiveTxs)
           \<and> validSequenceLen sampleConsts s = Inr ())"
proof -
  have ne: "fiveTxs \<noteq> []" by (simp add: fiveTxs_def)
  from compact_split_roundtrip [OF sample_compactLayoutOK ne fiveTxs_fit fiveTxs_small]
       sample_compactLayoutOK ne fiveTxs_fit fiveTxs_small
  show ?thesis by blast
qed

end
